theory Spec2Isabelle
  imports Complex_Main
begin

section \<open>Aerojump: the matching, scoring and navigation core of \<^verbatim>\<open>aerojump.py\<close>\<close>

text \<open>
  The development follows \<^verbatim>\<open>rplugin/python3/aerojump.py\<close>: the class
  \<^verbatim>\<open>AerojumpLine\<close> (one buffer line with its matches and scores) and the class
  \<^verbatim>\<open>Aerojump\<close> (the filtered lines, the cursor indices and the highlights).

  Conventions of the embedding.
  \<^item> Python \<^verbatim>\<open>str\<close> is \<open>string\<close>; \<^verbatim>\<open>str.lower\<close> is the character-wise ASCII
    lowering \<open>lower\<close>. The matcher only ever compares characters for equality, and its
    properties below are stated for every line whose \<open>raw_lower\<close> is at least as long as
    its \<open>raw\<close> (which Python's lowering guarantees as well).
  \<^item> Python \<^verbatim>\<open>int\<close> is \<open>int\<close>; loop counters produced by \<^verbatim>\<open>range\<close> are \<open>nat\<close>.
  \<^item> \<^verbatim>\<open>score/pat_len\<close> is true division of two integers; it is modelled by exact
    rational division. All scores of one filter pass are quotients \<open>k / n\<close> with
    \<open>1 \<le> k \<le> n\<close> and the same \<open>n\<close>, the pattern length; Python rounds each quotient
    to the nearest double, which keeps the order and the equality of such quotients for
    every pattern length a string can have.
  \<^item> An exception is a value \<open>Inl e\<close> of the result type \<open>error + 'a\<close>. An attribute
    that is assigned only later in an object's life (\<^verbatim>\<open>scores\<close>, \<^verbatim>\<open>filt_index\<close>,
    \<^verbatim>\<open>filtered_lines\<close>, \<^verbatim>\<open>highlights\<close>) is an \<open>option\<close>, and reading it while
    it is \<open>None\<close> is \<open>AttributeError\<close>.
  \<^item> Mutation is state passing. \<^verbatim>\<open>filtered_lines\<close> holds references to objects of
    \<^verbatim>\<open>lines\<close>; the line objects are mutated only inside \<^verbatim>\<open>apply_filter\<close>, which
    rebuilds \<^verbatim>\<open>filtered_lines\<close> in the same pass, so the model stores the filtered
    lines as values.
\<close>

subsection \<open>Exceptions and checked reads\<close>

datatype error = IndexError | AttributeError

definition py_nth :: "'a list \<Rightarrow> int \<Rightarrow> error + 'a" where
  \<comment> \<open>Python's \<^verbatim>\<open>xs[i]\<close>: an index in \<open>[-len, 0)\<close> counts from the end of the list.\<close>
  "py_nth xs i =
     (if 0 \<le> i \<and> i < int (length xs) then Inr (xs ! nat i)
      else if - int (length xs) \<le> i \<and> i < 0 then Inr (xs ! nat (int (length xs) + i))
      else Inl IndexError)"

definition attr :: "'a option \<Rightarrow> error + 'a" where
  \<comment> \<open>Reading an attribute that may not have been assigned yet.\<close>
  "attr a = (case a of None \<Rightarrow> Inl AttributeError | Some v \<Rightarrow> Inr v)"

subsection \<open>The class \<^verbatim>\<open>AerojumpLine\<close>\<close>

definition lower_char :: "char \<Rightarrow> char" where
  "lower_char c =
     (let n = (of_char c :: nat) in if 65 \<le> n \<and> n \<le> 90 then char_of (n + 32) else c)"

definition lower :: "string \<Rightarrow> string" where
  "lower s = map lower_char s"

record AerojumpLine =
  raw :: string
  raw_lower :: string
  num :: int
  matches :: "int list list"
  scores :: "rat list option"
  filt_index :: "nat option"

definition AerojumpLine_init :: "string \<Rightarrow> int \<Rightarrow> AerojumpLine" where
  "AerojumpLine_init line n =
     \<lparr> raw = line, raw_lower = lower line, num = n, matches = [],
       scores = None, filt_index = None \<rparr>"

text \<open>
  \<^verbatim>\<open>__score_matches\<close>. The inner \<^verbatim>\<open>while\<close> absorbs a run of consecutive positions
  starting at index \<open>i\<close>; the outer \<^verbatim>\<open>while\<close> walks over the runs of one match; the
  \<^verbatim>\<open>for\<close> walks over the matches. The counter \<open>score\<close> is seeded once per match.
\<close>

function score_run :: "int list \<Rightarrow> nat \<Rightarrow> int \<Rightarrow> int list \<Rightarrow> nat \<times> int \<times> int list" where
  "score_run m i score c_match =
     (if i < length m - 1 \<and> m ! (i + 1) - m ! i = 1
      then score_run m (i + 1) (score + 1) (c_match @ [m ! (i + 1)])
      else (i, score, c_match))"
  by pat_completeness auto
termination
  by (relation "measure (\<lambda>(m, i, score, c_match). length m - i)") auto

declare score_run.simps [simp del]

lemma score_run_ge: "i \<le> fst (score_run m i score c_match)"
proof (induction m i score c_match rule: score_run.induct)
  case (1 m i score c_match)
  show ?case
  proof (cases "i < length m - 1 \<and> m ! (i + 1) - m ! i = 1")
    case True
    with "1" have "i + 1 \<le> fst (score_run m (i + 1) (score + 1) (c_match @ [m ! (i + 1)]))"
      by blast
    with True show ?thesis by (subst score_run.simps) simp
  next
    case False
    then show ?thesis by (subst score_run.simps) auto
  qed
qed

function score_match ::
  "int list \<Rightarrow> nat \<Rightarrow> int \<Rightarrow> int list list \<Rightarrow> int \<times> int list list" where
  "score_match m i score sorted_matches =
     (if i < length m
      then (case score_run m i score [m ! i] of
              (i', score', c_match) \<Rightarrow>
                score_match m (i' + 1) score'
                  (if c_match \<notin> set sorted_matches
                   then sorted_matches @ [c_match] else sorted_matches))
      else (score, sorted_matches))"
  by pat_completeness auto
termination
proof (relation "measure (\<lambda>(m, i, score, sorted_matches). length m - i)")
  show "wf (measure (\<lambda>(m, i, score, sorted_matches). length m - i))" by simp
next
  fix m :: "int list" and i :: nat and score :: int and sorted_matches :: "int list list"
    and i' :: nat and y :: "int \<times> int list" and score' :: int and c_match :: "int list"
  assume lt: "i < length m" and x: "(i', y) = score_run m i score [m ! i]"
    and y: "(score', c_match) = y"
  from x have "i' = fst (score_run m i score [m ! i])" by (metis fst_conv)
  then have "i \<le> i'" by (simp add: score_run_ge)
  with lt show "((m, i' + 1, score',
                  if c_match \<notin> set sorted_matches then sorted_matches @ [c_match]
                  else sorted_matches),
                 (m, i, score, sorted_matches))
                \<in> measure (\<lambda>(m, i, score, sorted_matches). length m - i)"
    by simp
qed

declare score_match.simps [simp del]

fun score_loop ::
  "int list list \<Rightarrow> nat \<Rightarrow> int list list \<Rightarrow> rat list \<Rightarrow> int list list \<times> rat list" where
  "score_loop [] pat_len sorted_matches scs = (sorted_matches, scs)"
| "score_loop (m # ms) pat_len sorted_matches scs =
     (case score_match m 0 1 sorted_matches of
        (score, sorted_matches') \<Rightarrow>
          score_loop ms pat_len sorted_matches' (scs @ [of_int score / of_nat pat_len]))"

definition score_matches ::
  "AerojumpLine \<Rightarrow> int list list \<Rightarrow> nat \<Rightarrow> int list list \<times> AerojumpLine" where
  \<comment> \<open>Returns \<^verbatim>\<open>sorted_matches\<close> and the line with \<^verbatim>\<open>self.scores\<close> assigned.\<close>
  "score_matches l ms pat_len =
     (case score_loop ms pat_len [] [] of
        (sorted_matches, scs) \<Rightarrow> (sorted_matches, l\<lparr>scores := Some scs\<rparr>))"

text \<open>
  \<^verbatim>\<open>__match_from\<close>. The \<^verbatim>\<open>for\<close> loop over \<^verbatim>\<open>range(word_index, len(self.raw))\<close>
  returns in its first iteration whose character equals \<^verbatim>\<open>pattern[pat_index]\<close>, so
  the loop counter and the recursion share one function: \<open>i\<close> is the loop counter, and
  the recursive call of the source restarts the loop at \<open>i + 1\<close> with the next pattern
  index. The list \<open>ms\<close> is the caller's \<^verbatim>\<open>matches\<close> list, returned with the appended
  positions.
\<close>

function match_from ::
  "AerojumpLine \<Rightarrow> int list \<Rightarrow> string \<Rightarrow> nat \<Rightarrow> nat \<Rightarrow> bool \<times> int list" where
  "match_from l ms pattern pat_index i =
     (if i < length (raw l)
      then (if raw_lower l ! i = pattern ! pat_index
            then (let ms' = ms @ [int i + 1];
                      next_pat_index = pat_index + 1;
                      next_word_index = i + 1
                  in if next_pat_index = length pattern then (True, ms')
                     else if next_word_index < length (raw_lower l)
                     then match_from l ms' pattern next_pat_index next_word_index
                     else (False, ms'))
            else match_from l ms pattern pat_index (i + 1))
      else (False, ms))"
  by pat_completeness auto
termination
  by (relation "measure (\<lambda>(l, ms, pattern, pat_index, i). length (raw l) - i)") auto

declare match_from.simps [simp del]

text \<open>\<^verbatim>\<open>filter\<close>: the loop over the start indices, then the scoring.\<close>

fun filter_loop ::
  "AerojumpLine \<Rightarrow> string \<Rightarrow> nat list \<Rightarrow> int list list \<Rightarrow> int list list" where
  "filter_loop l pattern [] acc = acc"
| "filter_loop l pattern (i # is) acc =
     (if raw_lower l ! i = pattern ! 0
      then (case match_from l [] pattern 0 i of
              (True, proposed_matches) \<Rightarrow> filter_loop l pattern is (acc @ [proposed_matches])
            | (False, proposed_matches) \<Rightarrow> filter_loop l pattern is acc)
      else filter_loop l pattern is acc)"

definition filter_line :: "AerojumpLine \<Rightarrow> string \<Rightarrow> AerojumpLine" where
  "filter_line l pattern =
     (let l1 = l\<lparr>matches := []\<rparr>
      in if pattern = [] then l1
         else (let l2 = l1\<lparr>matches := filter_loop l1 pattern [0..<length (raw_lower l1)] []\<rparr>
               in snd (score_matches l2 (matches l2) (length pattern))))"

subsection \<open>The class \<^verbatim>\<open>Aerojump\<close>\<close>

datatype hl_group = SearchResult | SearchHighlight

type_synonym highlight = "hl_group \<times> int \<times> int \<times> int"

record Aerojump =
  log_str :: "string list"
  og_top_line :: "int \<times> int"
  og_cursor_pos :: "int \<times> int"
  num_lines :: int
  filter_string :: string
  lines :: "AerojumpLine list"
  cursor_line_index :: int
  cursor_match_index :: int
  has_filter_results :: bool
  filtered_lines :: "AerojumpLine list option"
  highlights :: "highlight list option"

text \<open>
  \<^verbatim>\<open>__init__\<close>: the loop reads \<^verbatim>\<open>lines[i]\<close> and \<^verbatim>\<open>lin_nums[i]\<close> for every index of
  \<^verbatim>\<open>lines\<close>. Neither \<^verbatim>\<open>filtered_lines\<close> nor \<^verbatim>\<open>highlights\<close> is assigned here.
\<close>

fun init_loop ::
  "string list \<Rightarrow> int list \<Rightarrow> nat list \<Rightarrow> AerojumpLine list \<Rightarrow> error + AerojumpLine list" where
  "init_loop lns lin_nums [] acc = Inr acc"
| "init_loop lns lin_nums (i # is) acc =
     (case py_nth lns (int i) of
        Inl e \<Rightarrow> Inl e
      | Inr line \<Rightarrow>
          (case py_nth lin_nums (int i) of
             Inl e \<Rightarrow> Inl e
           | Inr n \<Rightarrow> init_loop lns lin_nums is (acc @ [AerojumpLine_init line n])))"

definition Aerojump_init ::
  "string list \<Rightarrow> int list \<Rightarrow> int \<times> int \<Rightarrow> int \<times> int \<Rightarrow> int \<Rightarrow> error + Aerojump" where
  "Aerojump_init lns lin_nums cursor_pos top_line n_lines =
     (case init_loop lns lin_nums [0..<length lns] [] of
        Inl e \<Rightarrow> Inl e
      | Inr ls \<Rightarrow>
          Inr \<lparr> log_str = [], og_top_line = top_line, og_cursor_pos = cursor_pos,
                num_lines = n_lines, filter_string = [], lines = ls,
                cursor_line_index = 0, cursor_match_index = 0,
                has_filter_results = False, filtered_lines = None, highlights = None \<rparr>)"

text \<open>\<^verbatim>\<open>__get_filtered_lines\<close>: returns the mutated lines and the filtered lines.\<close>

fun get_filtered_loop ::
  "string \<Rightarrow> AerojumpLine list \<Rightarrow> AerojumpLine list \<Rightarrow> nat
   \<Rightarrow> AerojumpLine list \<times> AerojumpLine list" where
  "get_filtered_loop filter_str [] filtered fi = ([], filtered)"
| "get_filtered_loop filter_str (l # ls) filtered fi =
     (let l1 = filter_line l filter_str
      in if matches l1 \<noteq> []
         then (let l2 = l1\<lparr>filt_index := Some fi\<rparr>;
                   (ls', filtered') = get_filtered_loop filter_str ls (filtered @ [l2]) (fi + 1)
               in (l2 # ls', filtered'))
         else (let (ls', filtered') = get_filtered_loop filter_str ls filtered fi
               in (l1 # ls', filtered')))"

definition get_filtered_lines ::
  "string \<Rightarrow> AerojumpLine list \<Rightarrow> AerojumpLine list \<times> AerojumpLine list" where
  "get_filtered_lines filter_str ls = get_filtered_loop filter_str ls [] 0"

text \<open>\<^verbatim>\<open>__best_match_index_for\<close>: the loop keeps the first index of a maximal score.\<close>

fun best_match_loop :: "AerojumpLine \<Rightarrow> nat list \<Rightarrow> nat \<Rightarrow> error + nat" where
  "best_match_loop line [] ret = Inr ret"
| "best_match_loop line (i # is) ret =
     (case attr (scores line) of
        Inl e \<Rightarrow> Inl e
      | Inr sc \<Rightarrow>
          (case py_nth sc (int i) of
             Inl e \<Rightarrow> Inl e
           | Inr a \<Rightarrow>
               (case py_nth sc (int ret) of
                  Inl e \<Rightarrow> Inl e
                | Inr b \<Rightarrow> best_match_loop line is (if a > b then i else ret))))"

definition best_match_index_for :: "AerojumpLine \<Rightarrow> error + nat" where
  "best_match_index_for line = best_match_loop line [0..<length (matches line)] 0"

text \<open>
  \<^verbatim>\<open>__best_cursor_in\<close>: the loop state is the triple \<^verbatim>\<open>(line, s_index, score)\<close>; \<open>og\<close> is
  \<^verbatim>\<open>self.og_cursor_pos\<close>.
\<close>

fun best_cursor_loop ::
  "int \<times> int \<Rightarrow> AerojumpLine list \<Rightarrow> AerojumpLine \<times> nat \<times> rat
   \<Rightarrow> error + (AerojumpLine \<times> nat \<times> rat)" where
  "best_cursor_loop og [] st = Inr st"
| "best_cursor_loop og (l # ls) (line, s_index, score) =
     (case best_match_index_for l of
        Inl e \<Rightarrow> Inl e
      | Inr hyp_s_index \<Rightarrow>
          (case attr (scores l) of
             Inl e \<Rightarrow> Inl e
           | Inr sc \<Rightarrow>
               (case py_nth sc (int hyp_s_index) of
                  Inl e \<Rightarrow> Inl e
                | Inr h \<Rightarrow>
                    if h > score \<or> (h = score \<and> \<bar>fst og - num l\<bar> < \<bar>fst og - num line\<bar>)
                    then best_cursor_loop og ls (l, hyp_s_index, h)
                    else best_cursor_loop og ls (line, s_index, score))))"

definition best_cursor_in :: "Aerojump \<Rightarrow> AerojumpLine list \<Rightarrow> error + (nat \<times> nat)" where
  "best_cursor_in s ls =
     (case py_nth ls 0 of
        Inl e \<Rightarrow> Inl e
      | Inr line \<Rightarrow>
          (case best_match_index_for line of
             Inl e \<Rightarrow> Inl e
           | Inr s_index \<Rightarrow>
               (case attr (scores line) of
                  Inl e \<Rightarrow> Inl e
                | Inr sc \<Rightarrow>
                    (case py_nth sc (int s_index) of
                       Inl e \<Rightarrow> Inl e
                     | Inr score \<Rightarrow>
                         (case best_cursor_loop (og_cursor_pos s) ls (line, s_index, score) of
                            Inl e \<Rightarrow> Inl e
                          | Inr (line', s_index', score') \<Rightarrow>
                              (case attr (filt_index line') of
                                 Inl e \<Rightarrow> Inl e
                               | Inr fi \<Rightarrow> Inr (fi, s_index')))))))"

definition set_cursor_to_best_match :: "Aerojump \<Rightarrow> error + (nat \<times> nat)" where
  "set_cursor_to_best_match s =
     (let visible_start = fst (og_top_line s);
          visible_end = visible_start + num_lines s
      in case attr (filtered_lines s) of
           Inl e \<Rightarrow> Inl e
         | Inr fl \<Rightarrow>
             (let visible_matches =
                    filter (\<lambda>l. num l \<ge> visible_start \<and> num l \<le> visible_end) fl
              in if visible_matches \<noteq> [] then best_cursor_in s visible_matches
                 else best_cursor_in s fl))"

text \<open>\<^verbatim>\<open>__update_highlights\<close>: the three nested loops, then the cursor's match.\<close>

definition update_highlights ::
  "AerojumpLine list \<Rightarrow> int \<Rightarrow> int \<Rightarrow> error + highlight list" where
  "update_highlights fl c_line_index c_match_index =
     (let hls = concat (map (\<lambda>l. concat (map (\<lambda>m. map (\<lambda>i. (SearchResult, num l - 1, i - 1, i)) m)
                                             (matches l))) fl)
      in case py_nth fl c_line_index of
           Inl e \<Rightarrow> Inl e
         | Inr l \<Rightarrow>
             (case py_nth (matches l) c_match_index of
                Inl e \<Rightarrow> Inl e
              | Inr ms \<Rightarrow> Inr (hls @ map (\<lambda>m. (SearchHighlight, num l - 1, m - 1, m)) ms)))"

definition refresh_highlights :: "Aerojump \<Rightarrow> error + Aerojump" where
  \<comment> \<open>The statement \<^verbatim>\<open>self.highlights = self.__update_highlights(self.filtered_lines,
      self.cursor_line_index, self.cursor_match_index)\<close>, which five methods share.\<close>
  "refresh_highlights s =
     (case attr (filtered_lines s) of
        Inl e \<Rightarrow> Inl e
      | Inr fl \<Rightarrow>
          (case update_highlights fl (cursor_line_index s) (cursor_match_index s) of
             Inl e \<Rightarrow> Inl e
           | Inr hls \<Rightarrow> Inr (s\<lparr>highlights := Some hls\<rparr>)))"

definition apply_filter :: "Aerojump \<Rightarrow> string \<Rightarrow> error + Aerojump" where
  "apply_filter s filter_str =
     (let s1 = s\<lparr>filter_string := filter_str\<rparr>;
          (ls, fl) = get_filtered_lines filter_str (lines s1);
          s2 = s1\<lparr>lines := ls, filtered_lines := Some fl\<rparr>;
          s3 = s2\<lparr>has_filter_results := (length fl > 0)\<rparr>
      in if has_filter_results s3
         then (case set_cursor_to_best_match s3 of
                 Inl e \<Rightarrow> Inl e
               | Inr cursor_indices \<Rightarrow>
                   refresh_highlights
                     (s3\<lparr>cursor_line_index := int (fst cursor_indices),
                         cursor_match_index := int (snd cursor_indices)\<rparr>))
         else Inr s3)"

definition get_cursor :: "Aerojump \<Rightarrow> error + (int \<times> int)" where
  "get_cursor s =
     (if \<not> has_filter_results s then Inr (og_cursor_pos s)
      else case attr (filtered_lines s) of
             Inl e \<Rightarrow> Inl e
           | Inr fl \<Rightarrow>
               (case py_nth fl (cursor_line_index s) of
                  Inl e \<Rightarrow> Inl e
                | Inr l \<Rightarrow>
                    (case py_nth (matches l) (cursor_match_index s) of
                       Inl e \<Rightarrow> Inl e
                     | Inr m \<Rightarrow>
                         (case py_nth m 0 of
                            Inl e \<Rightarrow> Inl e
                          | Inr p \<Rightarrow> Inr (num l, p - 1)))))"

record draw_result =
  d_lines :: "string list"
  d_highlights :: "highlight list"
  d_cursor_position :: "int \<times> int"

definition draw :: "Aerojump \<Rightarrow> error + draw_result" where
  "draw s =
     (let lns = map (\<lambda>l. if matches l \<noteq> [] then raw l else raw l) (lines s)
      in case attr (highlights s) of
           Inl e \<Rightarrow> Inl e
         | Inr hls \<Rightarrow>
             (case get_cursor s of
                Inl e \<Rightarrow> Inl e
              | Inr c \<Rightarrow> Inr \<lparr> d_lines = lns, d_highlights = hls, d_cursor_position = c \<rparr>))"

definition get_highlights :: "Aerojump \<Rightarrow> error + highlight list" where
  "get_highlights s = attr (highlights s)"

definition cursor_line_up :: "Aerojump \<Rightarrow> error + Aerojump" where
  "cursor_line_up s =
     (let s1 = s\<lparr>cursor_line_index := cursor_line_index s - 1\<rparr>;
          s2 = (if cursor_line_index s1 < 0 then s1\<lparr>cursor_line_index := 0\<rparr> else s1);
          s3 = s2\<lparr>cursor_match_index := 0\<rparr>
      in refresh_highlights s3)"

definition cursor_line_down :: "Aerojump \<Rightarrow> error + Aerojump" where
  "cursor_line_down s =
     (let s1 = s\<lparr>cursor_line_index := cursor_line_index s + 1\<rparr>
      in case attr (filtered_lines s1) of
           Inl e \<Rightarrow> Inl e
         | Inr fl \<Rightarrow>
             (let s2 = (if cursor_line_index s1 \<ge> int (length fl)
                        then s1\<lparr>cursor_line_index := int (length fl) - 1\<rparr> else s1);
                  s3 = s2\<lparr>cursor_match_index := 0\<rparr>
              in refresh_highlights s3))"

definition cursor_match_next :: "Aerojump \<Rightarrow> error + Aerojump" where
  "cursor_match_next s =
     (let s1 = s\<lparr>cursor_match_index := cursor_match_index s + 1\<rparr>
      in case attr (filtered_lines s1) of
           Inl e \<Rightarrow> Inl e
         | Inr fl \<Rightarrow>
             (case py_nth fl (cursor_line_index s1) of
                Inl e \<Rightarrow> Inl e
              | Inr l \<Rightarrow>
                  if cursor_match_index s1 \<ge> int (length (matches l))
                  then cursor_line_down s1
                  else refresh_highlights s1))"

definition cursor_match_prev :: "Aerojump \<Rightarrow> error + Aerojump" where
  "cursor_match_prev s =
     (let s1 = s\<lparr>cursor_match_index := cursor_match_index s - 1\<rparr>
      in if cursor_match_index s1 < 0
         then (case cursor_line_up s1 of
                 Inl e \<Rightarrow> Inl e
               | Inr s2 \<Rightarrow>
                   (case attr (filtered_lines s2) of
                      Inl e \<Rightarrow> Inl e
                    | Inr fl \<Rightarrow>
                        (case py_nth fl (cursor_line_index s2) of
                           Inl e \<Rightarrow> Inl e
                         | Inr l \<Rightarrow>
                             Inr (s2\<lparr>cursor_match_index := int (length (matches l)) - 1\<rparr>))))
         else refresh_highlights s1)"

section \<open>Specification-level definitions\<close>

text \<open>
  \<open>adj_count m i\<close> counts the indices \<open>j \<ge> i\<close> whose adjacent positions \<open>m ! j\<close> and
  \<open>m ! (j + 1)\<close> differ by exactly one; \<open>adj_count m 0\<close> is the number of such pairs in
  the whole match.
\<close>

definition adj_count :: "int list \<Rightarrow> nat \<Rightarrow> nat" where
  "adj_count m i = length (filter (\<lambda>j. m ! (j + 1) - m ! j = 1) [i..<length m - 1])"

text \<open>
  What a recorded match satisfies with respect to its line and the pattern.
\<close>

definition sound_match :: "AerojumpLine \<Rightarrow> string \<Rightarrow> int list \<Rightarrow> bool" where
  "sound_match l pattern m \<longleftrightarrow>
     sorted_wrt (<) m \<and> (\<forall>p\<in>set m. 1 \<le> p \<and> p \<le> int (length (raw l)))
     \<and> map (\<lambda>p. raw_lower l ! nat (p - 1)) m = pattern"

text \<open>
  The filtered lines in closed form: the lines that kept a match, numbered densely
  from \<open>fi\<close>. \<open>filtered_ok\<close> is what every filtered-line list of a filter pass
  satisfies: each line has a match, carries its own index as \<^verbatim>\<open>filt_index\<close>, and has one
  score per match.
\<close>

fun renumber :: "nat \<Rightarrow> AerojumpLine list \<Rightarrow> AerojumpLine list" where
  "renumber fi [] = []"
| "renumber fi (l # ls) = l\<lparr>filt_index := Some fi\<rparr> # renumber (fi + 1) ls"

definition filtered_ok :: "AerojumpLine list \<Rightarrow> bool" where
  "filtered_ok fl \<longleftrightarrow>
     (\<forall>k<length fl. matches (fl ! k) \<noteq> [] \<and> filt_index (fl ! k) = Some k
        \<and> (\<exists>sc. scores (fl ! k) = Some sc \<and> length sc = length (matches (fl ! k))))"

text \<open>
  The selection policy in the specification's words. \<open>is_best_match l j\<close>: \<open>j\<close> is
  the lowest index among the maximal-score matches of \<open>l\<close>. \<open>best_score l\<close>: the
  highest score of \<open>l\<close>. \<open>preferred og a b\<close>: line \<open>a\<close> is strictly preferred to
  line \<open>b\<close>, by a higher best score or, at equal best scores, by a smaller distance
  between its line number and the original cursor line \<open>fst og\<close>.
\<close>

definition is_best_match :: "AerojumpLine \<Rightarrow> nat \<Rightarrow> bool" where
  "is_best_match l j \<longleftrightarrow>
     (\<exists>sc. scores l = Some sc \<and> j < length sc
        \<and> (\<forall>j'<length sc. sc ! j' \<le> sc ! j) \<and> (\<forall>j'<j. sc ! j' < sc ! j))"

definition best_score :: "AerojumpLine \<Rightarrow> rat" where
  "best_score l = (case scores l of None \<Rightarrow> 0 | Some sc \<Rightarrow> Max (set sc))"

definition preferred :: "int \<times> int \<Rightarrow> AerojumpLine \<Rightarrow> AerojumpLine \<Rightarrow> bool" where
  "preferred og a b \<longleftrightarrow>
     best_score a > best_score b
     \<or> (best_score a = best_score b \<and> \<bar>fst og - num a\<bar> < \<bar>fst og - num b\<bar>)"

text \<open>
  A line with at least one match and one score per match.
\<close>

definition scored :: "AerojumpLine \<Rightarrow> bool" where
  "scored l \<longleftrightarrow> matches l \<noteq> []
     \<and> (\<exists>sc. scores l = Some sc \<and> length sc = length (matches l))"

text \<open>
  \<open>chosen og cands k j\<close>: candidate \<open>k\<close> with match \<open>j\<close> is the selection among
  \<open>cands\<close>: \<open>j\<close> is the best match of candidate \<open>k\<close>, no candidate is preferred to
  candidate \<open>k\<close>, and candidate \<open>k\<close> is preferred to every candidate before it (it is
  the first such candidate in iteration order).
\<close>

definition chosen :: "int \<times> int \<Rightarrow> AerojumpLine list \<Rightarrow> nat \<Rightarrow> nat \<Rightarrow> bool" where
  "chosen og cands k j \<longleftrightarrow>
     k < length cands \<and> is_best_match (cands ! k) j
     \<and> (\<forall>k'<length cands. \<not> preferred og (cands ! k') (cands ! k))
     \<and> (\<forall>k'<k. preferred og (cands ! k) (cands ! k'))"

text \<open>
  The candidate set: the filtered lines whose number lies in
  \<open>[top, top + height]\<close> if there is one, all filtered lines otherwise.
\<close>

definition candidates :: "Aerojump \<Rightarrow> AerojumpLine list \<Rightarrow> AerojumpLine list" where
  "candidates s fl =
     (let top = fst (og_top_line s);
          visible = filter (\<lambda>l. top \<le> num l \<and> num l \<le> top + num_lines s) fl
      in if visible \<noteq> [] then visible else fl)"

text \<open>
  The two parts of the highlight list: one \<^verbatim>\<open>SearchResult\<close> span per position
  of every match of every filtered line, and one \<^verbatim>\<open>SearchHighlight\<close> span per position
  of one match.
\<close>

definition match_spans :: "AerojumpLine list \<Rightarrow> highlight list" where
  "match_spans fl =
     concat (map (\<lambda>l. concat (map (\<lambda>m. map (\<lambda>i. (SearchResult, num l - 1, i - 1, i)) m)
                                  (matches l))) fl)"

definition cursor_spans_of :: "AerojumpLine \<Rightarrow> int list \<Rightarrow> highlight list" where
  "cursor_spans_of l m = map (\<lambda>p. (SearchHighlight, num l - 1, p - 1, p)) m"

definition filter_pass :: "Aerojump \<Rightarrow> string \<Rightarrow> Aerojump" where
  \<comment> \<open>the state after the first three assignments of \<^verbatim>\<open>apply_filter\<close>\<close>
  "filter_pass s q =
     s\<lparr>filter_string := q, lines := fst (get_filtered_lines q (lines s)),
       filtered_lines := Some (snd (get_filtered_lines q (lines s))),
       has_filter_results := (snd (get_filtered_lines q (lines s)) \<noteq> [])\<rparr>"

text \<open>
  The navigation invariant: the filtered lines exist, there is at least one, each has
  a match, and both cursor indices are in range.
\<close>

definition nav_ok :: "Aerojump \<Rightarrow> bool" where
  "nav_ok s \<longleftrightarrow>
     (case filtered_lines s of
        None \<Rightarrow> False
      | Some fl \<Rightarrow>
          fl \<noteq> [] \<and> (\<forall>l\<in>set fl. matches l \<noteq> [])
          \<and> 0 \<le> cursor_line_index s \<and> cursor_line_index s < int (length fl)
          \<and> 0 \<le> cursor_match_index s
          \<and> cursor_match_index s < int (length (matches (fl ! nat (cursor_line_index s)))))"

text \<open>
  A command repeated \<open>n\<close> times; the first error ends the run.
\<close>

fun repeat_cmd :: "nat \<Rightarrow> (Aerojump \<Rightarrow> error + Aerojump) \<Rightarrow> Aerojump \<Rightarrow> error + Aerojump" where
  "repeat_cmd 0 cmd s = Inr s"
| "repeat_cmd (Suc n) cmd s = (case cmd s of Inl e \<Rightarrow> Inl e | Inr s' \<Rightarrow> repeat_cmd n cmd s')"

text \<open>
  The highlight list for the cursor indices of a state.
\<close>

definition selected_highlights :: "Aerojump \<Rightarrow> AerojumpLine list \<Rightarrow> highlight list" where
  "selected_highlights s fl =
     match_spans fl
     @ cursor_spans_of (fl ! nat (cursor_line_index s))
         (matches (fl ! nat (cursor_line_index s)) ! nat (cursor_match_index s))"

text \<open>
  Sequencing of calls on results: an exception ends the sequence.
\<close>

definition and_then :: "error + 'a \<Rightarrow> ('a \<Rightarrow> error + 'b) \<Rightarrow> error + 'b" where
  "and_then r f = (case r of Inl e \<Rightarrow> Inl e | Inr x \<Rightarrow> f x)"

text \<open>
  Example states. \<open>ex_state_aa\<close> is the engine over the single line \<^verbatim>\<open>aa\<close> after
  the query \<^verbatim>\<open>a\<close> (two matches of score 1), with a given match index and highlight
  list; \<open>ex_doc\<close> is the freshly constructed engine over four lines.
\<close>

definition ex_line_aa :: AerojumpLine where
  "ex_line_aa = \<lparr> raw = ''aa'', raw_lower = ''aa'', num = 1, matches = [[1], [2]],
                   scores = Some [1, 1], filt_index = Some 0 \<rparr>"

definition ex_state_aa :: "int \<Rightarrow> highlight list \<Rightarrow> Aerojump" where
  "ex_state_aa mi hls =
     \<lparr> log_str = [], og_top_line = (1, 0), og_cursor_pos = (1, 0), num_lines = 10,
       filter_string = ''a'', lines = [ex_line_aa], cursor_line_index = 0,
       cursor_match_index = mi, has_filter_results = True,
       filtered_lines = Some [ex_line_aa], highlights = Some hls \<rparr>"

text \<open>
  The \<^verbatim>\<open>SearchHighlight\<close> entries of the readable highlight list, and the spans of
  the match at the current cursor indices.
\<close>

definition shown_cursor_spans :: "Aerojump \<Rightarrow> error + highlight list" where
  "shown_cursor_spans s =
     (case get_highlights s of
        Inl e \<Rightarrow> Inl e
      | Inr hls \<Rightarrow> Inr (filter (\<lambda>h. fst h = SearchHighlight) hls))"

definition selected_cursor_spans :: "Aerojump \<Rightarrow> error + highlight list" where
  "selected_cursor_spans s =
     (case attr (filtered_lines s) of
        Inl e \<Rightarrow> Inl e
      | Inr fl \<Rightarrow>
          (case py_nth fl (cursor_line_index s) of
             Inl e \<Rightarrow> Inl e
           | Inr l \<Rightarrow>
               (case py_nth (matches l) (cursor_match_index s) of
                  Inl e \<Rightarrow> Inl e
                | Inr m \<Rightarrow> Inr (cursor_spans_of l m))))"

definition ex_doc :: Aerojump where
  "ex_doc =
     \<lparr> log_str = [], og_top_line = (1, 0), og_cursor_pos = (2, 0), num_lines = 10,
       filter_string = [],
       lines = [AerojumpLine_init ''foobar'' 1, AerojumpLine_init ''barfoo'' 2,
                AerojumpLine_init ''fbo'' 3, AerojumpLine_init ''aXbaab'' 4],
       cursor_line_index = 0, cursor_match_index = 0, has_filter_results = False,
       filtered_lines = None, highlights = None \<rparr>"

text \<open>
  The parts of a line and of an engine that are fixed at construction. Two states
  of the same session agree on them.
\<close>

definition core :: "AerojumpLine \<Rightarrow> string \<times> string \<times> int" where
  "core l = (raw l, raw_lower l, num l)"

definition same_session :: "Aerojump \<Rightarrow> Aerojump \<Rightarrow> bool" where
  "same_session a b \<longleftrightarrow>
     og_top_line a = og_top_line b \<and> og_cursor_pos a = og_cursor_pos b
     \<and> num_lines a = num_lines b \<and> map core (lines a) = map core (lines b)"

section \<open>Properties of the matcher and the scorer\<close>

subsection \<open>The greedy walk\<close>

lemma match_from_sound:
  "match_from l ms pattern k i = (True, res) \<Longrightarrow> k < length pattern \<Longrightarrow>
   \<exists>ps. res = ms @ ps \<and> sorted_wrt (<) ps \<and> (\<forall>p\<in>set ps. int i < p \<and> p \<le> int (length (raw l)))
      \<and> map (\<lambda>p. raw_lower l ! nat (p - 1)) ps = drop k pattern"
proof (induction l ms pattern k i arbitrary: res rule: match_from.induct)
  case (1 l ms pattern k i)
  show ?case
  proof (cases "i < length (raw l)")
    case False
    with "1.prems" show ?thesis by (subst (asm) match_from.simps) simp
  next
    case inb: True
    show ?thesis
    proof (cases "raw_lower l ! i = pattern ! k")
      case neq: False
      with inb "1.prems" have "match_from l ms pattern k (i + 1) = (True, res)"
        by (subst (asm) match_from.simps) simp
      from "1.IH"(2)[OF inb neq this "1.prems"(2)] obtain ps where
        ps: "res = ms @ ps" "sorted_wrt (<) ps"
            "\<forall>p\<in>set ps. int (i + 1) < p \<and> p \<le> int (length (raw l))"
            "map (\<lambda>p. raw_lower l ! nat (p - 1)) ps = drop k pattern" by blast
      from ps(3) have "\<forall>p\<in>set ps. int i < p \<and> p \<le> int (length (raw l))" by auto
      with ps show ?thesis by blast
    next
      case eq: True
      show ?thesis
      proof (cases "k + 1 = length pattern")
        case last: True
        with inb eq "1.prems" have res: "res = ms @ [int i + 1]"
          by (subst (asm) match_from.simps) (simp add: Let_def)
        from last have "drop k pattern = [pattern ! k]"
          by (metis "1.prems"(2) Cons_nth_drop_Suc Suc_eq_plus1 drop_all le_refl)
        with res eq inb show ?thesis by (intro exI[of _ "[int i + 1]"]) simp
      next
        case more: False
        show ?thesis
        proof (cases "i + 1 < length (raw_lower l)")
          case False
          with inb eq more "1.prems" show ?thesis
            by (subst (asm) match_from.simps) (simp add: Let_def)
        next
          case room: True
          with inb eq more "1.prems"
          have rec: "match_from l (ms @ [int i + 1]) pattern (k + 1) (i + 1) = (True, res)"
            by (subst (asm) match_from.simps) (simp add: Let_def)
          from more "1.prems"(2) have k1: "k + 1 < length pattern" by simp
          from "1.IH"(1)[OF inb eq refl refl refl more room rec k1] obtain ps where
            ps: "res = (ms @ [int i + 1]) @ ps" "sorted_wrt (<) ps"
              "\<forall>p\<in>set ps. int (i + 1) < p \<and> p \<le> int (length (raw l))"
              "map (\<lambda>p. raw_lower l ! nat (p - 1)) ps = drop (k + 1) pattern" by blast
          have d: "drop k pattern = pattern ! k # drop (k + 1) pattern"
            using "1.prems"(2) by (simp add: Cons_nth_drop_Suc)
          from ps eq inb d show ?thesis
            by (intro exI[of _ "(int i + 1) # ps"]) auto
        qed
      qed
    qed
  qed
qed

subsection \<open>The contiguity score\<close>

lemma adj_count_step:
  "i < length m - 1 \<Longrightarrow>
   adj_count m i = (if m ! (i + 1) - m ! i = 1 then 1 else 0) + adj_count m (i + 1)"
  by (simp add: adj_count_def upt_conv_Cons)

lemma adj_count_end: "\<not> i < length m - 1 \<Longrightarrow> adj_count m i = 0"
  by (simp add: adj_count_def)

lemma score_run_stop:
  "\<not> (i < length m - 1 \<and> m ! (i + 1) - m ! i = 1) \<Longrightarrow> score_run m i s c = (i, s, c)"
  by (subst score_run.simps) auto

lemma score_run_step:
  "i < length m - 1 \<Longrightarrow> m ! (i + 1) - m ! i = 1 \<Longrightarrow>
   score_run m i s c = score_run m (i + 1) (s + 1) (c @ [m ! (i + 1)])"
  by (subst score_run.simps) auto

lemma score_run_count:
  "score_run m i s c = (i', s', c') \<Longrightarrow>
   s' + int (adj_count m (i' + 1)) = s + int (adj_count m i) \<and> i \<le> i'"
proof (induction m i s c arbitrary: i' s' c' rule: score_run.induct)
  case (1 m i score c_match)
  show ?case
  proof (cases "i < length m - 1 \<and> m ! (i + 1) - m ! i = 1")
    case True
    with "1.prems" have "score_run m (i + 1) (score + 1) (c_match @ [m ! (i + 1)]) = (i', s', c')"
      by (simp add: score_run_step)
    from "1.IH"[OF True this] True show ?thesis
      by (simp add: adj_count_step)
  next
    case False
    from "1.prems" score_run_stop[OF False] have eq: "i' = i" "s' = score"
      by simp_all
    show ?thesis
    proof (cases "i < length m - 1")
      case True
      with False eq show ?thesis by (simp add: adj_count_step)
    next
      case False
      with eq show ?thesis by (simp add: adj_count_end)
    qed
  qed
qed

lemma score_match_count:
  "fst (score_match m i s srt) = s + int (adj_count m i)"
proof (induction m i s srt rule: score_match.induct)
  case (1 m i score sorted_matches)
  show ?case
  proof (cases "i < length m")
    case False
    then show ?thesis by (subst score_match.simps) (simp add: adj_count_end)
  next
    case True
    obtain i' s' c' where r: "score_run m i score [m ! i] = (i', s', c')"
      by (metis prod_cases3)
    from "1.IH"[OF True r[symmetric] refl] score_run_count[OF r] True r
    show ?thesis by (subst score_match.simps) simp
  qed
qed

lemma score_loop_scores:
  "snd (score_loop ms n srt scs) =
   scs @ map (\<lambda>m. of_int (1 + int (adj_count m 0)) / of_nat n) ms"
proof (induction ms arbitrary: srt scs)
  case Nil
  then show ?case by simp
next
  case (Cons m ms)
  obtain sc srt' where r: "score_match m 0 1 srt = (sc, srt')" by (metis surj_pair)
  then have "sc = 1 + int (adj_count m 0)" using score_match_count[of m 0 1 srt] by simp
  with r Cons show ?case by simp
qed

lemma length_filter_all: "length (filter P xs) = length xs \<longleftrightarrow> (\<forall>x\<in>set xs. P x)"
proof (induction xs)
  case Nil
  then show ?case by simp
next
  case (Cons x xs)
  have "length (filter P xs) \<le> length xs" by (rule length_filter_le)
  then have "length (filter P xs) \<noteq> Suc (length xs)" by arith
  with Cons show ?case by auto
qed

lemma adj_count_le: "adj_count m 0 \<le> length m - 1"
  using length_filter_le[of "\<lambda>j. m ! (j + 1) - m ! j = 1" "[0..<length m - 1]"]
  by (simp add: adj_count_def)

lemma adj_count_full:
  "adj_count m 0 = length m - 1 \<longleftrightarrow> (\<forall>j. j + 1 < length m \<longrightarrow> m ! (j + 1) = m ! j + 1)"
proof -
  let ?P = "\<lambda>j. m ! (j + 1) - m ! j = 1"
  have "length (filter ?P [0..<length m - 1]) = length [0..<length m - 1]
        \<longleftrightarrow> (\<forall>j\<in>set [0..<length m - 1]. ?P j)"
    by (rule length_filter_all)
  then show ?thesis unfolding adj_count_def by (auto simp: algebra_simps)
qed

subsection \<open>The filter pass over one line\<close>

lemma filter_loop_pred:
  assumes "\<And>i res. match_from l [] pattern 0 i = (True, res) \<Longrightarrow> P res"
  shows "\<forall>m\<in>set acc. P m \<Longrightarrow> \<forall>m\<in>set (filter_loop l pattern is acc). P m"
proof (induction "is" arbitrary: acc)
  case Nil
  then show ?case by simp
next
  case (Cons i "is")
  obtain b res where r: "match_from l [] pattern 0 i = (b, res)" by (metis surj_pair)
  show ?case
  proof (cases "raw_lower l ! i = pattern ! 0 \<and> b")
    case True
    with r assms have "P res" by auto
    with Cons.prems have "\<forall>m\<in>set (acc @ [res]). P m" by simp
    from Cons.IH[OF this] True r show ?thesis by simp
  next
    case False
    with Cons.IH[OF Cons.prems] r show ?thesis by (cases b) auto
  qed
qed

lemma matches_score_matches: "matches (snd (score_matches l ms n)) = matches l"
  by (simp add: score_matches_def split: prod.splits)

lemma scores_score_matches:
  "scores (snd (score_matches l ms n)) =
   Some (map (\<lambda>m. of_int (1 + int (adj_count m 0)) / of_nat n) ms)"
  using score_loop_scores[of ms n "[]" "[]"]
  by (cases "score_loop ms n [] []") (simp add: score_matches_def)

lemma matches_filter_line:
  "matches (filter_line l pattern) =
   (if pattern = [] then []
    else filter_loop (l\<lparr>matches := []\<rparr>) pattern [0..<length (raw_lower l)] [])"
  by (simp add: filter_line_def Let_def matches_score_matches)

lemma scores_filter_line:
  "pattern \<noteq> [] \<Longrightarrow>
   scores (filter_line l pattern) =
   Some (map (\<lambda>m. of_int (1 + int (adj_count m 0)) / of_nat (length pattern))
          (matches (filter_line l pattern)))"
  by (simp add: filter_line_def Let_def matches_score_matches scores_score_matches)

lemma filter_line_sound_match:
  assumes "pattern \<noteq> []" and "m \<in> set (matches (filter_line l pattern))"
  shows "sound_match l pattern m"
proof -
  let ?l = "l\<lparr>matches := []\<rparr>"
  have one: "sound_match l pattern res" if "match_from ?l [] pattern 0 i = (True, res)" for i res
  proof -
    from assms(1) have "0 < length pattern" by simp
    from match_from_sound[OF that this] show ?thesis
      by (fastforce simp: sound_match_def)
  qed
  have "\<forall>m\<in>set (filter_loop ?l pattern [0..<length (raw_lower l)] []). sound_match l pattern m"
    by (rule filter_loop_pred[where P = "sound_match l pattern"]) (auto intro: one)
  with assms show ?thesis by (simp add: matches_filter_line)
qed

text \<open>
  Claim C1. For every line (whose lowered text is at least as long as its raw text) and
  every non-empty pattern, each match that \<^verbatim>\<open>filter\<close> records is a strictly increasing
  list of 1-based character positions of the lowered text, has exactly as many positions
  as the pattern has characters, and the lowered text carries the \<open>k\<close>-th pattern
  character at the \<open>k\<close>-th position.
\<close>

theorem filter_subsequence_sound:
  assumes "pattern \<noteq> []" and "length (raw l) \<le> length (raw_lower l)"
    and "m \<in> set (matches (filter_line l pattern))"
  shows "sorted_wrt (<) m \<and> length m = length pattern
         \<and> (\<forall>p\<in>set m. 1 \<le> p \<and> p \<le> int (length (raw_lower l)))
         \<and> (\<forall>k<length pattern. raw_lower l ! nat (m ! k - 1) = pattern ! k)"
proof -
  from assms(1,3) have s: "sound_match l pattern m" by (rule filter_line_sound_match)
  then have len: "length m = length pattern"
    unfolding sound_match_def by (metis length_map)
  have "raw_lower l ! nat (m ! k - 1) = pattern ! k" if "k < length pattern" for k
  proof -
    from s have "map (\<lambda>p. raw_lower l ! nat (p - 1)) m ! k = pattern ! k"
      by (simp add: sound_match_def)
    with that len show ?thesis by simp
  qed
  with s len assms(2) show ?thesis by (fastforce simp: sound_match_def)
qed

text \<open>The theorem at a concrete input.\<close>

theorem filter_subsequence_sound_witness:
  "''ab'' \<noteq> []
   \<and> length (raw (AerojumpLine_init ''aXbaab'' 1)) \<le> length (raw_lower (AerojumpLine_init ''aXbaab'' 1))
   \<and> [4, 6] \<in> set (matches (filter_line (AerojumpLine_init ''aXbaab'' 1) ''ab''))
   \<and> sorted_wrt (<) [4, 6 :: int] \<and> length [4, 6 :: int] = length ''ab''
   \<and> raw_lower (AerojumpLine_init ''aXbaab'' 1) ! nat ([4, 6] ! 0 - 1) = ''ab'' ! 0
   \<and> raw_lower (AerojumpLine_init ''aXbaab'' 1) ! nat ([4, 6] ! 1 - 1) = ''ab'' ! 1"
proof -
  let ?l = "AerojumpLine_init ''aXbaab'' 1"
  have h1: "''ab'' \<noteq> []" by simp
  have h2: "length (raw ?l) \<le> length (raw_lower ?l)" by code_simp
  have h3: "[4, 6] \<in> set (matches (filter_line ?l ''ab''))" by code_simp
  note c = filter_subsequence_sound[OF h1 h2 h3]
  from c have all: "\<forall>k<length ''ab''. raw_lower ?l ! nat ([4, 6] ! k - 1) = ''ab'' ! k"
    by blast
  have "(0::nat) < length ''ab''" and "(1::nat) < length ''ab''" by simp_all
  with all have "raw_lower ?l ! nat ([4, 6] ! 0 - 1) = ''ab'' ! 0"
    and "raw_lower ?l ! nat ([4, 6] ! 1 - 1) = ''ab'' ! 1" by blast+
  with h1 h2 h3 c show ?thesis by blast
qed

text \<open>
  Claim C2. For a non-empty pattern, the score stored for the \<open>k\<close>-th recorded match is
  one plus the number of adjacent position pairs that differ by exactly one, divided by
  the pattern length; it lies in \<open>(0, 1]\<close>, and it is \<open>1\<close> exactly when all positions
  are consecutive.
\<close>

theorem filter_score_formula:
  assumes "pattern \<noteq> []" and "k < length (matches (filter_line l pattern))"
  shows "\<exists>sc. scores (filter_line l pattern) = Some sc
           \<and> length sc = length (matches (filter_line l pattern))
           \<and> sc ! k = (1 + of_nat (adj_count (matches (filter_line l pattern) ! k) 0))
                         / of_nat (length pattern)
           \<and> 0 < sc ! k \<and> sc ! k \<le> 1
           \<and> (sc ! k = 1 \<longleftrightarrow>
                (\<forall>j. j + 1 < length (matches (filter_line l pattern) ! k) \<longrightarrow>
                   matches (filter_line l pattern) ! k ! (j + 1)
                   = matches (filter_line l pattern) ! k ! j + 1))"
proof -
  let ?ms = "matches (filter_line l pattern)"
  let ?m = "?ms ! k"
  let ?n = "length pattern"
  let ?sc = "map (\<lambda>m. of_int (1 + int (adj_count m 0)) / (of_nat ?n :: rat)) ?ms"
  from assms have "?m \<in> set ?ms" by simp
  with assms(1) have "sound_match l pattern ?m" by (rule filter_line_sound_match)
  then have len: "length ?m = ?n" unfolding sound_match_def by (metis length_map)
  from assms(1) have npos: "0 < ?n" by simp
  have val: "?sc ! k = (1 + of_nat (adj_count ?m 0)) / of_nat ?n"
    using assms(2) by simp
  have le: "adj_count ?m 0 \<le> ?n - 1" using adj_count_le[of ?m] len by simp
  have pos: "0 < ?sc ! k" unfolding val using npos
    by (simp add: add_pos_nonneg)
  have "1 + adj_count ?m 0 \<le> ?n" using le npos by arith
  then have "(1 + of_nat (adj_count ?m 0) :: rat) \<le> of_nat ?n"
    by (metis of_nat_1 of_nat_add of_nat_le_iff)
  then have ub: "?sc ! k \<le> 1" unfolding val using npos by simp
  have "?sc ! k = 1 \<longleftrightarrow> (1 + of_nat (adj_count ?m 0) :: rat) = of_nat ?n"
    unfolding val using npos by auto
  also have "\<dots> \<longleftrightarrow> 1 + adj_count ?m 0 = ?n"
    by (metis of_nat_1 of_nat_add of_nat_eq_iff)
  also have "\<dots> \<longleftrightarrow> adj_count ?m 0 = length ?m - 1" using npos len by arith
  also have "\<dots> \<longleftrightarrow> (\<forall>j. j + 1 < length ?m \<longrightarrow> ?m ! (j + 1) = ?m ! j + 1)"
    by (rule adj_count_full)
  finally have one: "?sc ! k = 1 \<longleftrightarrow> (\<forall>j. j + 1 < length ?m \<longrightarrow> ?m ! (j + 1) = ?m ! j + 1)" .
  have "scores (filter_line l pattern) = Some ?sc"
    using assms(1) by (rule scores_filter_line)
  moreover have "length ?sc = length ?ms" by simp
  ultimately show ?thesis using val pos ub one by blast
qed

text \<open>The theorem at a concrete input.\<close>

theorem filter_score_formula_witness:
  "''ab'' \<noteq> [] \<and> 2 < length (matches (filter_line (AerojumpLine_init ''aXbaab'' 1) ''ab''))
   \<and> (\<exists>sc. scores (filter_line (AerojumpLine_init ''aXbaab'' 1) ''ab'') = Some sc
           \<and> sc ! 2 = 1 \<and> sc ! 0 = 1 / 2)"
proof -
  let ?l = "AerojumpLine_init ''aXbaab'' 1"
  have h1: "''ab'' \<noteq> []" by simp
  have h2: "2 < length (matches (filter_line ?l ''ab''))" by code_simp
  have m: "matches (filter_line ?l ''ab'') = [[1, 3], [4, 6], [5, 6]]" by code_simp
  have h0: "0 < length (matches (filter_line ?l ''ab''))" by code_simp
  from filter_score_formula[OF h1 h2] obtain sc where
    sc: "scores (filter_line ?l ''ab'') = Some sc"
      "sc ! 2 = (1 + of_nat (adj_count (matches (filter_line ?l ''ab'') ! 2) 0)) / of_nat (length ''ab'')"
    by blast
  from filter_score_formula[OF h1 h0] sc(1) have
    sc0: "sc ! 0 = (1 + of_nat (adj_count (matches (filter_line ?l ''ab'') ! 0) 0)) / of_nat (length ''ab'')"
    by auto
  have "adj_count [5, 6] 0 = 1" "adj_count [1, 3] 0 = 0" by (simp_all add: adj_count_def)
  with sc sc0 m h1 h2 show ?thesis by simp
qed

section \<open>Properties of the engine\<close>

subsection \<open>The filtered lines\<close>

lemma py_nth_nat: "k < length xs \<Longrightarrow> py_nth xs (int k) = Inr (xs ! k)"
  by (simp add: py_nth_def)

lemma py_nth_in_range: "0 \<le> i \<Longrightarrow> i < int (length xs) \<Longrightarrow> py_nth xs i = Inr (xs ! nat i)"
  by (simp add: py_nth_def)

lemma py_nth_Nil: "py_nth [] i = Inl IndexError"
  by (simp add: py_nth_def)

lemma length_renumber: "length (renumber fi ls) = length ls"
  by (induction ls arbitrary: fi) auto

lemma nth_renumber:
  "k < length ls \<Longrightarrow> renumber fi ls ! k = (ls ! k)\<lparr>filt_index := Some (fi + k)\<rparr>"
proof (induction ls arbitrary: fi k)
  case Nil
  then show ?case by simp
next
  case (Cons l ls)
  then show ?case by (cases k) auto
qed

lemma get_filtered_loop_snd:
  "snd (get_filtered_loop q ls filtered fi) =
   filtered @ renumber fi (filter (\<lambda>l. matches l \<noteq> []) (map (\<lambda>l. filter_line l q) ls))"
proof (induction ls arbitrary: filtered fi)
  case Nil
  then show ?case by simp
next
  case (Cons l ls)
  show ?case
  proof (cases "matches (filter_line l q) \<noteq> []")
    case True
    then show ?thesis
      using Cons[of "filtered @ [(filter_line l q)\<lparr>filt_index := Some fi\<rparr>]" "fi + 1"]
      by (auto simp: Let_def split: prod.splits)
  next
    case False
    then show ?thesis using Cons[of filtered fi]
      by (auto simp: Let_def split: prod.splits)
  qed
qed

lemma get_filtered_lines_snd:
  "snd (get_filtered_lines q ls) =
   renumber 0 (filter (\<lambda>l. matches l \<noteq> []) (map (\<lambda>l. filter_line l q) ls))"
  by (simp add: get_filtered_lines_def get_filtered_loop_snd)

lemma filter_line_scores_length:
  assumes "matches (filter_line l q) \<noteq> []"
  shows "\<exists>sc. scores (filter_line l q) = Some sc \<and> length sc = length (matches (filter_line l q))"
proof -
  from assms have "q \<noteq> []" by (auto simp: matches_filter_line)
  from scores_filter_line[OF this, of l] show ?thesis by simp
qed

lemma filtered_ok_get_filtered_lines: "filtered_ok (snd (get_filtered_lines q ls))"
proof -
  let ?xs = "filter (\<lambda>l. matches l \<noteq> []) (map (\<lambda>l. filter_line l q) ls)"
  have each: "matches (?xs ! k) \<noteq> []
     \<and> (\<exists>sc. scores (?xs ! k) = Some sc \<and> length sc = length (matches (?xs ! k)))"
    if "k < length ?xs" for k
  proof -
    from that have "?xs ! k \<in> set ?xs" by (rule nth_mem)
    then obtain l where "?xs ! k = filter_line l q" "matches (filter_line l q) \<noteq> []" by auto
    with filter_line_scores_length[of l q] show ?thesis by simp
  qed
  show ?thesis
    unfolding filtered_ok_def get_filtered_lines_snd
    by (simp add: length_renumber nth_renumber each)
qed

subsection \<open>The best match of a line and the best line\<close>

lemma best_match_loop_spec:
  assumes sc: "scores l = Some sc"
  shows "ret < length sc \<Longrightarrow> \<forall>i\<in>set is. i < length sc \<Longrightarrow>
         \<exists>r. best_match_loop l is ret = Inr r \<and> r < length sc \<and> sc ! ret \<le> sc ! r
            \<and> (\<forall>j\<in>set is. sc ! j \<le> sc ! r)
            \<and> (r = ret \<or> (sc ! ret < sc ! r
                  \<and> (\<exists>pre post. is = pre @ r # post \<and> (\<forall>j\<in>set pre. sc ! j < sc ! r))))"
proof (induction "is" arbitrary: ret)
  case Nil
  then show ?case by simp
next
  case (Cons i "is")
  let ?ret' = "if sc ! i > sc ! ret then i else ret"
  from Cons.prems have i: "i < length sc" by simp
  have step: "best_match_loop l (i # is) ret = best_match_loop l is ?ret'"
    using sc i Cons.prems(1) by (simp add: attr_def py_nth_nat)
  have "?ret' < length sc" using i Cons.prems(1) by simp
  moreover have "\<forall>i\<in>set is. i < length sc" using Cons.prems(2) by simp
  ultimately obtain r where r: "best_match_loop l is ?ret' = Inr r" "r < length sc"
    "sc ! ?ret' \<le> sc ! r" "\<forall>j\<in>set is. sc ! j \<le> sc ! r"
    "r = ?ret' \<or> (sc ! ?ret' < sc ! r
        \<and> (\<exists>pre post. is = pre @ r # post \<and> (\<forall>j\<in>set pre. sc ! j < sc ! r)))"
    using Cons.IH[of ?ret'] by blast
  have a: "sc ! ret \<le> sc ! r" using r(3) by (auto split: if_splits)
  have b: "sc ! i \<le> sc ! r" using r(3) by (auto split: if_splits)
  have c: "r = ret \<or> (sc ! ret < sc ! r
        \<and> (\<exists>pre post. i # is = pre @ r # post \<and> (\<forall>j\<in>set pre. sc ! j < sc ! r)))"
  proof (cases "sc ! i > sc ! ret")
    case gt: True
    from r(5) show ?thesis
    proof
      assume "r = ?ret'"
      with gt have "r = i" by simp
      with gt have "sc ! ret < sc ! r \<and> i # is = [] @ r # is \<and> (\<forall>j\<in>set []. sc ! j < sc ! r)"
        by simp
      then show ?thesis by blast
    next
      assume "sc ! ?ret' < sc ! r
        \<and> (\<exists>pre post. is = pre @ r # post \<and> (\<forall>j\<in>set pre. sc ! j < sc ! r))"
      with gt obtain pre post where p: "sc ! i < sc ! r" "is = pre @ r # post"
        "\<forall>j\<in>set pre. sc ! j < sc ! r" by auto
      then have "sc ! ret < sc ! r \<and> i # is = (i # pre) @ r # post
          \<and> (\<forall>j\<in>set (i # pre). sc ! j < sc ! r)" using gt by auto
      then show ?thesis by blast
    qed
  next
    case le: False
    from r(5) show ?thesis
    proof
      assume "r = ?ret'"
      with le show ?thesis by simp
    next
      assume "sc ! ?ret' < sc ! r
        \<and> (\<exists>pre post. is = pre @ r # post \<and> (\<forall>j\<in>set pre. sc ! j < sc ! r))"
      with le obtain pre post where p: "sc ! ret < sc ! r" "is = pre @ r # post"
        "\<forall>j\<in>set pre. sc ! j < sc ! r" by auto
      then have "sc ! ret < sc ! r \<and> i # is = (i # pre) @ r # post
          \<and> (\<forall>j\<in>set (i # pre). sc ! j < sc ! r)" using le by auto
      then show ?thesis by blast
    qed
  qed
  from step r(1,2,4) a b c show ?case by auto
qed

lemma upt_split_prefix:
  assumes "[0..<n] = pre @ r # post" and "j < r"
  shows "j \<in> set pre"
proof -
  have len: "length pre < n" using arg_cong[OF assms(1), of length] by simp
  have "[0..<n] ! length pre = r" using assms(1) by (metis nth_append_length)
  with len have r: "r = length pre" by simp
  with assms(2) have "pre ! j = [0..<n] ! j" using assms(1) by (simp add: nth_append)
  also have "\<dots> = j" using assms(2) r len by simp
  finally show ?thesis using assms(2) r by (metis nth_mem)
qed

lemma best_match_index_for_spec:
  assumes "scored l"
  shows "\<exists>r. best_match_index_for l = Inr r \<and> is_best_match l r"
proof -
  from assms obtain sc where sc: "scores l = Some sc" "length sc = length (matches l)"
    "0 < length sc" by (auto simp: scored_def)
  have "\<forall>i\<in>set [0..<length sc]. i < length sc" by simp
  from best_match_loop_spec[OF sc(1) sc(3) this] obtain r where
    r: "best_match_loop l [0..<length sc] 0 = Inr r" "r < length sc"
       "\<forall>j\<in>set [0..<length sc]. sc ! j \<le> sc ! r"
       "r = 0 \<or> (sc ! 0 < sc ! r
          \<and> (\<exists>pre post. [0..<length sc] = pre @ r # post \<and> (\<forall>j\<in>set pre. sc ! j < sc ! r)))"
    by blast
  have first: "\<forall>j'<r. sc ! j' < sc ! r"
  proof (intro allI impI)
    fix j' assume lt: "j' < r"
    with r(4) obtain pre post where "[0..<length sc] = pre @ r # post"
      "\<forall>j\<in>set pre. sc ! j < sc ! r" by auto
    with upt_split_prefix[OF this(1) lt] show "sc ! j' < sc ! r" by blast
  qed
  from r(3) have "\<forall>j'<length sc. sc ! j' \<le> sc ! r" by simp
  with r(1,2) first sc show ?thesis
    by (auto simp: best_match_index_for_def is_best_match_def)
qed

lemma is_best_match_score:
  assumes "is_best_match l j" and "scores l = Some sc"
  shows "sc ! j = best_score l" and "j < length sc"
proof -
  from assms have j: "j < length sc" "\<forall>j'<length sc. sc ! j' \<le> sc ! j"
    by (auto simp: is_best_match_def)
  then show "j < length sc" by simp
  from j have "sc ! j \<in> set sc" by simp
  moreover have "\<forall>x\<in>set sc. x \<le> sc ! j" using j(2) by (auto simp: in_set_conv_nth)
  ultimately have "Max (set sc) = sc ! j" by (intro Max_eqI) auto
  with assms(2) show "sc ! j = best_score l" by (simp add: best_score_def)
qed

lemma preferred_asym: "preferred og a b \<Longrightarrow> \<not> preferred og b a"
  by (auto simp: preferred_def)

lemma preferred_trans1: "preferred og a b \<Longrightarrow> \<not> preferred og c b \<Longrightarrow> preferred og a c"
  unfolding preferred_def by linarith

lemma preferred_trans2: "preferred og a b \<Longrightarrow> \<not> preferred og a c \<Longrightarrow> preferred og c b"
  unfolding preferred_def by linarith

lemma preferred_negtrans:
  "\<not> preferred og a b \<Longrightarrow> \<not> preferred og b c \<Longrightarrow> \<not> preferred og a c"
  unfolding preferred_def by linarith

lemma best_cursor_loop_step:
  assumes "scored l"
  shows "\<exists>hyp. is_best_match l hyp \<and>
     best_cursor_loop og (l # ls) (line, s_index, best_score line) =
       (if preferred og l line then best_cursor_loop og ls (l, hyp, best_score l)
        else best_cursor_loop og ls (line, s_index, best_score line))"
proof -
  from best_match_index_for_spec[OF assms] obtain hyp where
    hyp: "best_match_index_for l = Inr hyp" "is_best_match l hyp" by blast
  from assms obtain sc where sc: "scores l = Some sc" by (auto simp: scored_def)
  from is_best_match_score[OF hyp(2) sc] have h: "sc ! hyp = best_score l" "hyp < length sc" .
  from hyp sc h have
    "best_cursor_loop og (l # ls) (line, s_index, best_score line) =
       (if preferred og l line then best_cursor_loop og ls (l, hyp, best_score l)
        else best_cursor_loop og ls (line, s_index, best_score line))"
    by (simp add: attr_def py_nth_nat preferred_def)
  with hyp(2) show ?thesis by blast
qed

lemma best_cursor_loop_spec:
  "\<forall>l\<in>set ls. scored l \<Longrightarrow> is_best_match line s_index \<Longrightarrow>
   \<exists>line' j'. best_cursor_loop og ls (line, s_index, best_score line)
                 = Inr (line', j', best_score line')
      \<and> is_best_match line' j' \<and> \<not> preferred og line line'
      \<and> (\<forall>c\<in>set ls. \<not> preferred og c line')
      \<and> ((line' = line \<and> j' = s_index)
         \<or> (preferred og line' line
            \<and> (\<exists>pre post. ls = pre @ line' # post \<and> (\<forall>c\<in>set pre. preferred og line' c))))"
proof (induction ls arbitrary: line s_index)
  case Nil
  then show ?case by (auto simp: preferred_def)
next
  case (Cons l ls)
  from Cons.prems have l: "scored l" and rest: "\<forall>l\<in>set ls. scored l" by simp_all
  from best_cursor_loop_step[OF l, of og ls line s_index] obtain hyp where
    hyp: "is_best_match l hyp"
    and step: "best_cursor_loop og (l # ls) (line, s_index, best_score line) =
       (if preferred og l line then best_cursor_loop og ls (l, hyp, best_score l)
        else best_cursor_loop og ls (line, s_index, best_score line))" by blast
  show ?case
  proof (cases "preferred og l line")
    case better: True
    from Cons.IH[OF rest hyp] obtain line' j' where
      r: "best_cursor_loop og ls (l, hyp, best_score l) = Inr (line', j', best_score line')"
        "is_best_match line' j'" "\<not> preferred og l line'"
        "\<forall>c\<in>set ls. \<not> preferred og c line'"
        "(line' = l \<and> j' = hyp)
         \<or> (preferred og line' l
            \<and> (\<exists>pre post. ls = pre @ line' # post \<and> (\<forall>c\<in>set pre. preferred og line' c)))"
      by blast
    have p: "preferred og line' line" using better r(3) by (rule preferred_trans2)
    then have np: "\<not> preferred og line line'" by (rule preferred_asym)
    have dec: "\<exists>pre post. l # ls = pre @ line' # post \<and> (\<forall>c\<in>set pre. preferred og line' c)"
      using r(5)
    proof
      assume "line' = l \<and> j' = hyp"
      then have "l # ls = [] @ line' # ls \<and> (\<forall>c\<in>set []. preferred og line' c)" by simp
      then show ?thesis by blast
    next
      assume "preferred og line' l
            \<and> (\<exists>pre post. ls = pre @ line' # post \<and> (\<forall>c\<in>set pre. preferred og line' c))"
      then obtain pre post where "preferred og line' l" "ls = pre @ line' # post"
        "\<forall>c\<in>set pre. preferred og line' c" by blast
      then have "l # ls = (l # pre) @ line' # post \<and> (\<forall>c\<in>set (l # pre). preferred og line' c)"
        by simp
      then show ?thesis by blast
    qed
    from step better r(1) have
      "best_cursor_loop og (l # ls) (line, s_index, best_score line)
       = Inr (line', j', best_score line')" by simp
    moreover have "\<forall>c\<in>set (l # ls). \<not> preferred og c line'" using r(3,4) by simp
    ultimately show ?thesis using r(2) np p dec by blast
  next
    case worse: False
    from Cons.IH[OF rest Cons.prems(2)] obtain line' j' where
      r: "best_cursor_loop og ls (line, s_index, best_score line)
            = Inr (line', j', best_score line')"
        "is_best_match line' j'" "\<not> preferred og line line'"
        "\<forall>c\<in>set ls. \<not> preferred og c line'"
        "(line' = line \<and> j' = s_index)
         \<or> (preferred og line' line
            \<and> (\<exists>pre post. ls = pre @ line' # post \<and> (\<forall>c\<in>set pre. preferred og line' c)))"
      by blast
    have nl: "\<not> preferred og l line'" using worse r(3) by (rule preferred_negtrans)
    have dis: "(line' = line \<and> j' = s_index)
         \<or> (preferred og line' line
            \<and> (\<exists>pre post. l # ls = pre @ line' # post \<and> (\<forall>c\<in>set pre. preferred og line' c)))"
      using r(5)
    proof
      assume "line' = line \<and> j' = s_index"
      then show ?thesis by blast
    next
      assume "preferred og line' line
            \<and> (\<exists>pre post. ls = pre @ line' # post \<and> (\<forall>c\<in>set pre. preferred og line' c))"
      then obtain pre post where q: "preferred og line' line" "ls = pre @ line' # post"
        "\<forall>c\<in>set pre. preferred og line' c" by blast
      from q(1) worse have "preferred og line' l" by (rule preferred_trans1)
      with q have "l # ls = (l # pre) @ line' # post \<and> (\<forall>c\<in>set (l # pre). preferred og line' c)"
        by simp
      with q(1) show ?thesis by blast
    qed
    from step worse r(1) have
      "best_cursor_loop og (l # ls) (line, s_index, best_score line)
       = Inr (line', j', best_score line')" by simp
    moreover have "\<forall>c\<in>set (l # ls). \<not> preferred og c line'" using nl r(4) by simp
    ultimately show ?thesis using r(2,3) dis by blast
  qed
qed

lemma best_cursor_in_spec:
  assumes "cands \<noteq> []" and "\<forall>l\<in>set cands. scored l"
    and "\<forall>l\<in>set cands. \<exists>fi. filt_index l = Some fi"
  shows "\<exists>k j. best_cursor_in s cands = Inr (the (filt_index (cands ! k)), j)
           \<and> chosen (og_cursor_pos s) cands k j"
proof -
  let ?og = "og_cursor_pos s"
  let ?line = "cands ! 0"
  from assms(1) have n: "0 < length cands" by simp
  then have mem: "?line \<in> set cands" by simp
  with assms(2) have sl: "scored ?line" by blast
  from best_match_index_for_spec[OF sl] obtain s_index where
    si: "best_match_index_for ?line = Inr s_index" "is_best_match ?line s_index" by blast
  from sl obtain sc where sc: "scores ?line = Some sc" by (auto simp: scored_def)
  from is_best_match_score[OF si(2) sc] have h: "sc ! s_index = best_score ?line"
    "s_index < length sc" .
  from best_cursor_loop_spec[OF assms(2) si(2), of ?og] obtain line' j' where
    r: "best_cursor_loop ?og cands (?line, s_index, best_score ?line)
          = Inr (line', j', best_score line')"
       "is_best_match line' j'" "\<not> preferred ?og ?line line'"
       "\<forall>c\<in>set cands. \<not> preferred ?og c line'"
       "(line' = ?line \<and> j' = s_index)
         \<or> (preferred ?og line' ?line
            \<and> (\<exists>pre post. cands = pre @ line' # post \<and> (\<forall>c\<in>set pre. preferred ?og line' c)))"
    by blast
  have "\<exists>k. k < length cands \<and> cands ! k = line' \<and> (\<forall>k'<k. preferred ?og line' (cands ! k'))"
    using r(5)
  proof
    assume "line' = ?line \<and> j' = s_index"
    with n have "0 < length cands \<and> cands ! 0 = line' \<and> (\<forall>k'<0. preferred ?og line' (cands ! k'))"
      by simp
    then show ?thesis by blast
  next
    assume "preferred ?og line' ?line
            \<and> (\<exists>pre post. cands = pre @ line' # post \<and> (\<forall>c\<in>set pre. preferred ?og line' c))"
    then obtain pre post where q: "cands = pre @ line' # post"
      "\<forall>c\<in>set pre. preferred ?og line' c" by blast
    have "length pre < length cands" by (subst q(1)) simp
    moreover have "cands ! length pre = line'" by (subst q(1)) simp
    moreover have "\<forall>k'<length pre. preferred ?og line' (cands ! k')"
    proof (intro allI impI)
      fix k' assume "k' < length pre"
      then have "cands ! k' = pre ! k'" "pre ! k' \<in> set pre"
        by (subst q(1), simp_all add: nth_append)
      with q(2) show "preferred ?og line' (cands ! k')" by simp
    qed
    ultimately show ?thesis by blast
  qed
  then obtain k where k: "k < length cands" "cands ! k = line'"
    "\<forall>k'<k. preferred ?og line' (cands ! k')" by blast
  from k(1,2) have "line' \<in> set cands" by (metis nth_mem)
  with assms(3) obtain fi where fi: "filt_index line' = Some fi" by blast
  have all: "\<forall>k'<length cands. \<not> preferred ?og (cands ! k') line'" using r(4) by simp
  from mem si(1) sc h r(1) fi n
  have "best_cursor_in s cands = Inr (fi, j')"
    by (simp add: best_cursor_in_def py_nth_def attr_def)
  with k fi r(2) all show ?thesis unfolding chosen_def by (intro exI[of _ k] exI[of _ j']) simp
qed

subsection \<open>The filter pass and the initial cursor\<close>

lemma update_highlights_in_range:
  "0 \<le> i \<Longrightarrow> i < int (length fl) \<Longrightarrow> 0 \<le> j \<Longrightarrow> j < int (length (matches (fl ! nat i))) \<Longrightarrow>
   update_highlights fl i j =
     Inr (match_spans fl @ cursor_spans_of (fl ! nat i) (matches (fl ! nat i) ! nat j))"
  by (simp add: update_highlights_def py_nth_in_range match_spans_def cursor_spans_of_def)

lemma set_cursor_to_best_match_eq:
  "filtered_lines s = Some fl \<Longrightarrow>
   set_cursor_to_best_match s = best_cursor_in s (candidates s fl)"
  by (simp add: set_cursor_to_best_match_def candidates_def attr_def Let_def)

lemma candidates_subset: "set (candidates s fl) \<subseteq> set fl"
  by (auto simp: candidates_def Let_def)

lemma candidates_nonempty: "fl \<noteq> [] \<Longrightarrow> candidates s fl \<noteq> []"
  by (auto simp: candidates_def Let_def)

lemma filtered_ok_mem:
  assumes "filtered_ok fl" and "l \<in> set fl"
  shows "scored l" and "\<exists>i<length fl. fl ! i = l \<and> filt_index l = Some i"
proof -
  from assms(2) obtain i where i: "i < length fl" "fl ! i = l" by (auto simp: in_set_conv_nth)
  with assms(1) show "scored l" by (auto simp: filtered_ok_def scored_def)
  from i assms(1) show "\<exists>i<length fl. fl ! i = l \<and> filt_index l = Some i"
    by (auto simp: filtered_ok_def)
qed

lemma apply_filter_empty:
  assumes "snd (get_filtered_lines q (lines s)) = []"
  shows "apply_filter s q = Inr (filter_pass s q)"
proof -
  obtain ls fl where g: "get_filtered_lines q (lines s) = (ls, fl)" by (metis surj_pair)
  with assms show ?thesis by (simp add: apply_filter_def filter_pass_def Let_def)
qed

lemma apply_filter_nonempty:
  assumes fl: "snd (get_filtered_lines q (lines s)) = fl" and ne: "fl \<noteq> []"
  shows "\<exists>k j i. chosen (og_cursor_pos s) (candidates s fl) k j
           \<and> i < length fl \<and> fl ! i = candidates s fl ! k \<and> filt_index (fl ! i) = Some i
           \<and> j < length (matches (fl ! i))
           \<and> set_cursor_to_best_match (filter_pass s q) = Inr (i, j)
           \<and> apply_filter s q =
               Inr ((filter_pass s q)\<lparr>cursor_line_index := int i, cursor_match_index := int j,
                      highlights := Some (match_spans fl
                                          @ cursor_spans_of (fl ! i) (matches (fl ! i) ! j))\<rparr>)"
proof -
  let ?s3 = "filter_pass s q"
  let ?cands = "candidates s fl"
  have ok: "filtered_ok fl" using filtered_ok_get_filtered_lines[of q "lines s"] fl by simp
  have f3: "filtered_lines ?s3 = Some fl" using fl by (simp add: filter_pass_def)
  have c3: "candidates ?s3 fl = ?cands" by (simp add: candidates_def filter_pass_def)
  have og3: "og_cursor_pos ?s3 = og_cursor_pos s" by (simp add: filter_pass_def)
  have cne: "?cands \<noteq> []" using ne by (rule candidates_nonempty)
  have csc: "\<forall>l\<in>set ?cands. scored l"
    using filtered_ok_mem(1)[OF ok] candidates_subset[of s fl] by blast
  have cfi: "\<forall>l\<in>set ?cands. \<exists>fi. filt_index l = Some fi"
    using filtered_ok_mem(2)[OF ok] candidates_subset[of s fl] by blast
  from best_cursor_in_spec[OF cne csc cfi, of ?s3] og3 obtain k j where
    kj: "best_cursor_in ?s3 ?cands = Inr (the (filt_index (?cands ! k)), j)"
        "chosen (og_cursor_pos s) ?cands k j" by auto
  from kj(2) have k: "k < length ?cands" "is_best_match (?cands ! k) j"
    by (simp_all add: chosen_def)
  then have "?cands ! k \<in> set fl" using candidates_subset[of s fl] by (metis nth_mem subsetD)
  from filtered_ok_mem[OF ok this] obtain i where
    i: "i < length fl" "fl ! i = ?cands ! k" "filt_index (?cands ! k) = Some i"
    and sc: "scored (?cands ! k)" by blast
  from sc obtain scs where scs: "scores (?cands ! k) = Some scs"
    "length scs = length (matches (?cands ! k))" by (auto simp: scored_def)
  from is_best_match_score(2)[OF k(2) scs(1)] scs(2) i(2)
  have j: "j < length (matches (fl ! i))" by simp
  have best: "set_cursor_to_best_match ?s3 = Inr (i, j)"
    using set_cursor_to_best_match_eq[OF f3] c3 kj(1) i(3) by simp
  have upd: "update_highlights fl (int i) (int j) =
      Inr (match_spans fl @ cursor_spans_of (fl ! i) (matches (fl ! i) ! j))"
    using update_highlights_in_range[of "int i" fl "int j"] i(1) j by simp
  have h3: "has_filter_results ?s3" using fl ne by (simp add: filter_pass_def)
  obtain ls where g: "get_filtered_lines q (lines s) = (ls, fl)"
    using fl by (metis prod.collapse)
  have "apply_filter s q =
      (case set_cursor_to_best_match ?s3 of Inl e \<Rightarrow> Inl e
       | Inr ci \<Rightarrow> refresh_highlights
            (?s3\<lparr>cursor_line_index := int (fst ci), cursor_match_index := int (snd ci)\<rparr>))"
    using g ne by (simp add: apply_filter_def filter_pass_def Let_def split: sum.splits)
  also have "\<dots> = refresh_highlights (?s3\<lparr>cursor_line_index := int i, cursor_match_index := int j\<rparr>)"
    by (simp add: best)
  also have "\<dots> = Inr (?s3\<lparr>cursor_line_index := int i, cursor_match_index := int j,
                      highlights := Some (match_spans fl
                                          @ cursor_spans_of (fl ! i) (matches (fl ! i) ! j))\<rparr>)"
    using f3 upd by (simp add: refresh_highlights_def attr_def)
  finally have "apply_filter s q =
      Inr (?s3\<lparr>cursor_line_index := int i, cursor_match_index := int j,
                      highlights := Some (match_spans fl
                                          @ cursor_spans_of (fl ! i) (matches (fl ! i) ! j))\<rparr>)" .
  moreover have "filt_index (fl ! i) = Some i" using i(2,3) by simp
  ultimately show ?thesis using kj(2) i(1,2) j best by blast
qed

lemma apply_filter_total: "\<exists>s'. apply_filter s q = Inr s'"
proof (cases "snd (get_filtered_lines q (lines s)) = []")
  case True
  then show ?thesis by (simp add: apply_filter_empty)
next
  case False
  from apply_filter_nonempty[OF refl False] show ?thesis by blast
qed

lemma apply_filter_filtered_lines:
  assumes "apply_filter s q = Inr s'"
  shows "filtered_lines s' = Some (snd (get_filtered_lines q (lines s)))"
    and "has_filter_results s' \<longleftrightarrow> snd (get_filtered_lines q (lines s)) \<noteq> []"
    and "og_cursor_pos s' = og_cursor_pos s" and "og_top_line s' = og_top_line s"
    and "num_lines s' = num_lines s" and "filter_string s' = q"
    and "lines s' = fst (get_filtered_lines q (lines s))"
proof -
  let ?fl = "snd (get_filtered_lines q (lines s))"
  have "filtered_lines s' = Some ?fl \<and> (has_filter_results s' \<longleftrightarrow> ?fl \<noteq> [])
      \<and> og_cursor_pos s' = og_cursor_pos s \<and> og_top_line s' = og_top_line s
      \<and> num_lines s' = num_lines s \<and> filter_string s' = q
      \<and> lines s' = fst (get_filtered_lines q (lines s))"
  proof (cases "?fl = []")
    case True
    with assms show ?thesis by (auto simp: apply_filter_empty filter_pass_def)
  next
    case False
    from apply_filter_nonempty[OF refl False] assms False show ?thesis
      by (auto simp: filter_pass_def)
  qed
  then show "filtered_lines s' = Some ?fl" "has_filter_results s' \<longleftrightarrow> ?fl \<noteq> []"
    "og_cursor_pos s' = og_cursor_pos s" "og_top_line s' = og_top_line s"
    "num_lines s' = num_lines s" "filter_string s' = q"
    "lines s' = fst (get_filtered_lines q (lines s))" by simp_all
qed



subsection \<open>The navigation commands\<close>

lemma nav_okI:
  "filtered_lines s = Some fl \<Longrightarrow> fl \<noteq> [] \<Longrightarrow> \<forall>l\<in>set fl. matches l \<noteq> [] \<Longrightarrow>
   0 \<le> cursor_line_index s \<Longrightarrow> cursor_line_index s < int (length fl) \<Longrightarrow>
   0 \<le> cursor_match_index s \<Longrightarrow>
   cursor_match_index s < int (length (matches (fl ! nat (cursor_line_index s)))) \<Longrightarrow> nav_ok s"
  by (simp add: nav_ok_def)

lemma nav_okD:
  assumes "nav_ok s" and "filtered_lines s = Some fl"
  shows "fl \<noteq> []" and "\<forall>l\<in>set fl. matches l \<noteq> []"
    and "0 \<le> cursor_line_index s" and "cursor_line_index s < int (length fl)"
    and "0 \<le> cursor_match_index s"
    and "cursor_match_index s < int (length (matches (fl ! nat (cursor_line_index s))))"
  using assms by (simp_all add: nav_ok_def)

lemma refresh_highlights_in_range:
  assumes "filtered_lines s = Some fl"
    and "0 \<le> cursor_line_index s" and "cursor_line_index s < int (length fl)"
    and "0 \<le> cursor_match_index s"
    and "cursor_match_index s < int (length (matches (fl ! nat (cursor_line_index s))))"
  shows "refresh_highlights s = Inr (s\<lparr>highlights := Some (selected_highlights s fl)\<rparr>)"
  using assms update_highlights_in_range[OF assms(2-5)]
  by (simp add: refresh_highlights_def attr_def selected_highlights_def)

lemma first_match_in_range:
  assumes "\<forall>l\<in>set fl. matches l \<noteq> []" and "0 \<le> i" and "i < int (length fl)"
  shows "(0::int) < int (length (matches (fl ! nat i)))"
proof -
  from assms(2,3) have "fl ! nat i \<in> set fl" by simp
  with assms(1) show ?thesis by simp
qed

lemma cursor_line_up_eq:
  assumes "filtered_lines s = Some fl" and "fl \<noteq> []" and "\<forall>l\<in>set fl. matches l \<noteq> []"
    and "0 \<le> cursor_line_index s" and "cursor_line_index s < int (length fl)"
  shows "cursor_line_up s =
         Inr (s\<lparr>cursor_line_index := max (cursor_line_index s - 1) 0, cursor_match_index := 0,
                highlights := Some (selected_highlights
                   (s\<lparr>cursor_line_index := max (cursor_line_index s - 1) 0,
                      cursor_match_index := 0\<rparr>) fl)\<rparr>)"
proof -
  let ?s3 = "s\<lparr>cursor_line_index := max (cursor_line_index s - 1) 0, cursor_match_index := 0\<rparr>"
  have up: "cursor_line_up s = refresh_highlights ?s3"
    by (simp add: cursor_line_up_def Let_def max_def)
  have a: "filtered_lines ?s3 = Some fl" using assms(1) by simp
  have b: "0 \<le> cursor_line_index ?s3" by simp
  have c: "cursor_line_index ?s3 < int (length fl)" using assms(2,4,5) by simp
  have d: "0 \<le> cursor_match_index ?s3" by simp
  have e: "cursor_match_index ?s3 < int (length (matches (fl ! nat (cursor_line_index ?s3))))"
    using first_match_in_range[OF assms(3) b c] by simp
  from refresh_highlights_in_range[OF a b c d e] up show ?thesis by simp
qed

lemma cursor_line_down_eq:
  assumes "filtered_lines s = Some fl" and "fl \<noteq> []" and "\<forall>l\<in>set fl. matches l \<noteq> []"
    and "0 \<le> cursor_line_index s" and "cursor_line_index s < int (length fl)"
  shows "cursor_line_down s =
         Inr (s\<lparr>cursor_line_index := min (cursor_line_index s + 1) (int (length fl) - 1),
                cursor_match_index := 0,
                highlights := Some (selected_highlights
                   (s\<lparr>cursor_line_index := min (cursor_line_index s + 1) (int (length fl) - 1),
                      cursor_match_index := 0\<rparr>) fl)\<rparr>)"
proof -
  let ?s3 = "s\<lparr>cursor_line_index := min (cursor_line_index s + 1) (int (length fl) - 1),
               cursor_match_index := 0\<rparr>"
  have down: "cursor_line_down s = refresh_highlights ?s3"
    using assms(1) by (simp add: cursor_line_down_def Let_def min_def attr_def)
  have a: "filtered_lines ?s3 = Some fl" using assms(1) by simp
  have b: "0 \<le> cursor_line_index ?s3" using assms(2,4) by simp
  have c: "cursor_line_index ?s3 < int (length fl)" using assms(2) by simp
  have d: "0 \<le> cursor_match_index ?s3" by simp
  have e: "cursor_match_index ?s3 < int (length (matches (fl ! nat (cursor_line_index ?s3))))"
    using first_match_in_range[OF assms(3) b c] by simp
  from refresh_highlights_in_range[OF a b c d e] down show ?thesis by simp
qed

lemma cursor_match_next_overflow:
  assumes "filtered_lines s = Some fl"
    and "0 \<le> cursor_line_index s" and "cursor_line_index s < int (length fl)"
    and "int (length (matches (fl ! nat (cursor_line_index s)))) \<le> cursor_match_index s + 1"
  shows "cursor_match_next s = cursor_line_down s"
proof -
  let ?s1 = "s\<lparr>cursor_match_index := cursor_match_index s + 1\<rparr>"
  have "cursor_match_next s = cursor_line_down ?s1"
    using assms by (simp add: cursor_match_next_def Let_def attr_def py_nth_in_range)
  also have "\<dots> = cursor_line_down s"
    by (simp add: cursor_line_down_def Let_def split: sum.splits)
  finally show ?thesis .
qed

lemma cursor_match_next_inside:
  assumes "filtered_lines s = Some fl"
    and "0 \<le> cursor_line_index s" and "cursor_line_index s < int (length fl)"
    and "0 \<le> cursor_match_index s"
    and "cursor_match_index s + 1 < int (length (matches (fl ! nat (cursor_line_index s))))"
  shows "cursor_match_next s =
         Inr (s\<lparr>cursor_match_index := cursor_match_index s + 1,
                highlights := Some (selected_highlights
                   (s\<lparr>cursor_match_index := cursor_match_index s + 1\<rparr>) fl)\<rparr>)"
proof -
  let ?s1 = "s\<lparr>cursor_match_index := cursor_match_index s + 1\<rparr>"
  have "cursor_match_next s = refresh_highlights ?s1"
    using assms by (simp add: cursor_match_next_def Let_def attr_def py_nth_in_range)
  moreover have "refresh_highlights ?s1 = Inr (?s1\<lparr>highlights := Some (selected_highlights ?s1 fl)\<rparr>)"
    using assms by (intro refresh_highlights_in_range) simp_all
  ultimately show ?thesis by simp
qed

lemma cursor_match_prev_underflow:
  assumes "filtered_lines s = Some fl" and "fl \<noteq> []" and "\<forall>l\<in>set fl. matches l \<noteq> []"
    and "0 \<le> cursor_line_index s" and "cursor_line_index s < int (length fl)"
    and "cursor_match_index s \<le> 0"
  shows "cursor_match_prev s =
         Inr (s\<lparr>cursor_line_index := max (cursor_line_index s - 1) 0,
                cursor_match_index :=
                  int (length (matches (fl ! nat (max (cursor_line_index s - 1) 0)))) - 1,
                highlights := Some (selected_highlights
                   (s\<lparr>cursor_line_index := max (cursor_line_index s - 1) 0,
                      cursor_match_index := 0\<rparr>) fl)\<rparr>)"
proof -
  let ?s1 = "s\<lparr>cursor_match_index := cursor_match_index s - 1\<rparr>"
  have up: "cursor_line_up ?s1 =
         Inr (?s1\<lparr>cursor_line_index := max (cursor_line_index ?s1 - 1) 0, cursor_match_index := 0,
                highlights := Some (selected_highlights
                   (?s1\<lparr>cursor_line_index := max (cursor_line_index ?s1 - 1) 0,
                      cursor_match_index := 0\<rparr>) fl)\<rparr>)"
    using assms by (intro cursor_line_up_eq) simp_all
  have sel: "selected_highlights (?s1\<lparr>cursor_line_index := max (cursor_line_index ?s1 - 1) 0,
                      cursor_match_index := 0\<rparr>) fl
        = selected_highlights (s\<lparr>cursor_line_index := max (cursor_line_index s - 1) 0,
                      cursor_match_index := 0\<rparr>) fl"
    by (simp add: selected_highlights_def)
  have rng: "0 \<le> max (cursor_line_index s - 1) 0" "max (cursor_line_index s - 1) 0 < int (length fl)"
    using assms(2,4,5) by simp_all
  show ?thesis
    using assms(1,6) rng
    by (simp add: cursor_match_prev_def Let_def up sel attr_def py_nth_in_range)
qed

lemma cursor_match_prev_inside:
  assumes "filtered_lines s = Some fl"
    and "0 \<le> cursor_line_index s" and "cursor_line_index s < int (length fl)"
    and "0 < cursor_match_index s"
    and "cursor_match_index s < int (length (matches (fl ! nat (cursor_line_index s))))"
  shows "cursor_match_prev s =
         Inr (s\<lparr>cursor_match_index := cursor_match_index s - 1,
                highlights := Some (selected_highlights
                   (s\<lparr>cursor_match_index := cursor_match_index s - 1\<rparr>) fl)\<rparr>)"
proof -
  let ?s1 = "s\<lparr>cursor_match_index := cursor_match_index s - 1\<rparr>"
  have "cursor_match_prev s = refresh_highlights ?s1"
    using assms by (simp add: cursor_match_prev_def Let_def)
  moreover have "refresh_highlights ?s1 = Inr (?s1\<lparr>highlights := Some (selected_highlights ?s1 fl)\<rparr>)"
    using assms by (intro refresh_highlights_in_range) simp_all
  ultimately show ?thesis by simp
qed

lemma ex_state_aa_0:
  "and_then (Aerojump_init [''aa''] [1] (1, 0) (1, 0) 10) (\<lambda>s. apply_filter s ''a'')
   = Inr (ex_state_aa 0 [(SearchResult, 0, 0, 1), (SearchResult, 0, 1, 2), (SearchHighlight, 0, 0, 1)])"
  by code_simp

lemma ex_state_aa_1:
  "cursor_match_next (ex_state_aa 0 [(SearchResult, 0, 0, 1), (SearchResult, 0, 1, 2), (SearchHighlight, 0, 0, 1)])
   = Inr (ex_state_aa 1 [(SearchResult, 0, 0, 1), (SearchResult, 0, 1, 2), (SearchHighlight, 0, 1, 2)])"
  by code_simp

lemma nav_step_up:
  assumes "nav_ok s" and "filtered_lines s = Some fl"
  shows "\<exists>s'. cursor_line_up s = Inr s' \<and> filtered_lines s' = Some fl \<and> nav_ok s'
            \<and> cursor_line_index s' = max (cursor_line_index s - 1) 0"
proof -
  note d = nav_okD[OF assms]
  let ?s' = "s\<lparr>cursor_line_index := max (cursor_line_index s - 1) 0, cursor_match_index := 0,
                highlights := Some (selected_highlights
                   (s\<lparr>cursor_line_index := max (cursor_line_index s - 1) 0,
                      cursor_match_index := 0\<rparr>) fl)\<rparr>"
  have eq: "cursor_line_up s = Inr ?s'" using assms(2) d(1-4) by (rule cursor_line_up_eq)
  have b: "0 \<le> cursor_line_index ?s'" by simp
  have c: "cursor_line_index ?s' < int (length fl)" using d(1,3,4) by simp
  have "nav_ok ?s'"
    using assms(2) d(1,2) b c first_match_in_range[OF d(2) b c]
    by (intro nav_okI[of _ fl]) simp_all
  with eq assms(2) show ?thesis by simp
qed

lemma nav_step_down:
  assumes "nav_ok s" and "filtered_lines s = Some fl"
  shows "\<exists>s'. cursor_line_down s = Inr s' \<and> filtered_lines s' = Some fl \<and> nav_ok s'
            \<and> cursor_line_index s' = min (cursor_line_index s + 1) (int (length fl) - 1)
            \<and> cursor_match_index s' = 0"
proof -
  note d = nav_okD[OF assms]
  let ?s' = "s\<lparr>cursor_line_index := min (cursor_line_index s + 1) (int (length fl) - 1),
                cursor_match_index := 0,
                highlights := Some (selected_highlights
                   (s\<lparr>cursor_line_index := min (cursor_line_index s + 1) (int (length fl) - 1),
                      cursor_match_index := 0\<rparr>) fl)\<rparr>"
  have eq: "cursor_line_down s = Inr ?s'" using assms(2) d(1-4) by (rule cursor_line_down_eq)
  have b: "0 \<le> cursor_line_index ?s'" using d(1,3) by simp
  have c: "cursor_line_index ?s' < int (length fl)" using d(1) by simp
  have "nav_ok ?s'"
    using assms(2) d(1,2) b c first_match_in_range[OF d(2) b c]
    by (intro nav_okI[of _ fl]) simp_all
  with eq assms(2) show ?thesis by simp
qed

lemma nav_step_next:
  assumes "nav_ok s" and "filtered_lines s = Some fl"
  shows "\<exists>s'. cursor_match_next s = Inr s' \<and> filtered_lines s' = Some fl \<and> nav_ok s'"
proof (cases "int (length (matches (fl ! nat (cursor_line_index s)))) \<le> cursor_match_index s + 1")
  case True
  note d = nav_okD[OF assms]
  from cursor_match_next_overflow[OF assms(2) d(3,4) True] nav_step_down[OF assms]
  show ?thesis by auto
next
  case False
  note d = nav_okD[OF assms]
  let ?s' = "s\<lparr>cursor_match_index := cursor_match_index s + 1,
                highlights := Some (selected_highlights
                   (s\<lparr>cursor_match_index := cursor_match_index s + 1\<rparr>) fl)\<rparr>"
  have eq: "cursor_match_next s = Inr ?s'"
    using assms(2) d(3,4,5) False by (intro cursor_match_next_inside) simp_all
  have "nav_ok ?s'" using assms(2) d False by (intro nav_okI[of _ fl]) simp_all
  with eq assms(2) show ?thesis by simp
qed

lemma nav_step_prev:
  assumes "nav_ok s" and "filtered_lines s = Some fl"
  shows "\<exists>s'. cursor_match_prev s = Inr s' \<and> filtered_lines s' = Some fl \<and> nav_ok s'"
proof (cases "cursor_match_index s \<le> 0")
  case True
  note d = nav_okD[OF assms]
  let ?i = "max (cursor_line_index s - 1) 0"
  let ?s' = "s\<lparr>cursor_line_index := ?i,
                cursor_match_index := int (length (matches (fl ! nat ?i))) - 1,
                highlights := Some (selected_highlights
                   (s\<lparr>cursor_line_index := ?i, cursor_match_index := 0\<rparr>) fl)\<rparr>"
  have eq: "cursor_match_prev s = Inr ?s'"
    using assms(2) d(1-4) True by (rule cursor_match_prev_underflow)
  have b: "0 \<le> ?i" by simp
  have c: "?i < int (length fl)" using d(1,3,4) by simp
  have "nav_ok ?s'"
    using assms(2) d(1,2) b c first_match_in_range[OF d(2) b c]
    by (intro nav_okI[of _ fl]) simp_all
  with eq assms(2) show ?thesis by simp
next
  case False
  note d = nav_okD[OF assms]
  let ?s' = "s\<lparr>cursor_match_index := cursor_match_index s - 1,
                highlights := Some (selected_highlights
                   (s\<lparr>cursor_match_index := cursor_match_index s - 1\<rparr>) fl)\<rparr>"
  have eq: "cursor_match_prev s = Inr ?s'"
    using assms(2) d(3,4,6) False by (intro cursor_match_prev_inside) simp_all
  have "nav_ok ?s'" using assms(2) d False by (intro nav_okI[of _ fl]) simp_all
  with eq assms(2) show ?thesis by simp
qed

lemma repeat_line_up:
  "nav_ok s \<Longrightarrow> filtered_lines s = Some fl \<Longrightarrow>
   \<exists>s'. repeat_cmd n cursor_line_up s = Inr s' \<and> filtered_lines s' = Some fl \<and> nav_ok s'
      \<and> cursor_line_index s' = max (cursor_line_index s - int n) 0"
proof (induction n arbitrary: s)
  case 0
  then show ?case using nav_okD(3)[OF "0.prems"] by simp
next
  case (Suc n)
  from nav_step_up[OF Suc.prems] obtain s1 where
    s1: "cursor_line_up s = Inr s1" "filtered_lines s1 = Some fl" "nav_ok s1"
        "cursor_line_index s1 = max (cursor_line_index s - 1) 0" by blast
  from Suc.IH[OF s1(3,2)] obtain s' where
    s': "repeat_cmd n cursor_line_up s1 = Inr s'" "filtered_lines s' = Some fl" "nav_ok s'"
        "cursor_line_index s' = max (cursor_line_index s1 - int n) 0" by blast
  have "cursor_line_index s' = max (cursor_line_index s - int (Suc n)) 0"
    using s'(4) s1(4) by simp
  with s1(1) s'(1,2,3) show ?case by simp
qed

lemma repeat_line_down:
  "nav_ok s \<Longrightarrow> filtered_lines s = Some fl \<Longrightarrow>
   \<exists>s'. repeat_cmd n cursor_line_down s = Inr s' \<and> filtered_lines s' = Some fl \<and> nav_ok s'
      \<and> cursor_line_index s' = min (cursor_line_index s + int n) (int (length fl) - 1)"
proof (induction n arbitrary: s)
  case 0
  then show ?case using nav_okD(4)[OF "0.prems"] by simp
next
  case (Suc n)
  from nav_step_down[OF Suc.prems] obtain s1 where
    s1: "cursor_line_down s = Inr s1" "filtered_lines s1 = Some fl" "nav_ok s1"
        "cursor_line_index s1 = min (cursor_line_index s + 1) (int (length fl) - 1)" by blast
  from Suc.IH[OF s1(3,2)] obtain s' where
    s': "repeat_cmd n cursor_line_down s1 = Inr s'" "filtered_lines s' = Some fl" "nav_ok s'"
        "cursor_line_index s' = min (cursor_line_index s1 + int n) (int (length fl) - 1)" by blast
  have "cursor_line_index s' = min (cursor_line_index s + int (Suc n)) (int (length fl) - 1)"
    using s'(4) s1(4) by simp
  with s1(1) s'(1,2,3) show ?case by simp
qed

lemma apply_filter_nav_ok:
  assumes "apply_filter s q = Inr s'" and "has_filter_results s'"
  shows "nav_ok s'"
proof -
  let ?fl = "snd (get_filtered_lines q (lines s))"
  from apply_filter_filtered_lines[OF assms(1)] assms(2)
  have fl: "filtered_lines s' = Some ?fl" and ne: "?fl \<noteq> []" by simp_all
  have ok: "filtered_ok ?fl" by (rule filtered_ok_get_filtered_lines)
  then have m: "\<forall>l\<in>set ?fl. matches l \<noteq> []" by (auto simp: filtered_ok_def in_set_conv_nth)
  from apply_filter_nonempty[OF refl ne] obtain k j i where
    r: "i < length ?fl" "j < length (matches (?fl ! i))"
       "apply_filter s q =
          Inr ((filter_pass s q)\<lparr>cursor_line_index := int i, cursor_match_index := int j,
                 highlights := Some (match_spans ?fl
                                     @ cursor_spans_of (?fl ! i) (matches (?fl ! i) ! j))\<rparr>)"
    by blast
  from r(3) assms(1) have "cursor_line_index s' = int i" "cursor_match_index s' = int j"
    by auto
  with r(1,2) fl ne m show ?thesis by (intro nav_okI[of _ ?fl]) simp_all
qed

text \<open>
  Claim C6. In a state whose filtered lines are non-empty and whose indices are in range,
  each navigation command returns without an error and leaves both indices in range;
  \<open>length fl\<close> repetitions of \<^verbatim>\<open>cursor_line_up\<close> end on line index 0 and as many
  repetitions of \<^verbatim>\<open>cursor_line_down\<close> end on the last line index.
\<close>

theorem navigation_clamping:
  assumes "nav_ok s" and "filtered_lines s = Some fl"
  shows "(\<exists>s'. cursor_line_up s = Inr s' \<and> filtered_lines s' = Some fl \<and> nav_ok s')
       \<and> (\<exists>s'. cursor_line_down s = Inr s' \<and> filtered_lines s' = Some fl \<and> nav_ok s')
       \<and> (\<exists>s'. cursor_match_next s = Inr s' \<and> filtered_lines s' = Some fl \<and> nav_ok s')
       \<and> (\<exists>s'. cursor_match_prev s = Inr s' \<and> filtered_lines s' = Some fl \<and> nav_ok s')
       \<and> (\<exists>s'. repeat_cmd (length fl) cursor_line_up s = Inr s' \<and> cursor_line_index s' = 0)
       \<and> (\<exists>s'. repeat_cmd (length fl) cursor_line_down s = Inr s'
                \<and> cursor_line_index s' = int (length fl) - 1)"
proof -
  note d = nav_okD[OF assms]
  have up: "\<exists>s'. repeat_cmd (length fl) cursor_line_up s = Inr s' \<and> cursor_line_index s' = 0"
    using repeat_line_up[OF assms, of "length fl"] d(4) by auto
  have down: "\<exists>s'. repeat_cmd (length fl) cursor_line_down s = Inr s'
                \<and> cursor_line_index s' = int (length fl) - 1"
    using repeat_line_down[OF assms, of "length fl"] d(3) by auto
  from nav_step_up[OF assms] nav_step_down[OF assms] nav_step_next[OF assms]
    nav_step_prev[OF assms] up down
  show ?thesis by blast
qed

text \<open>The theorem at a concrete input.\<close>

theorem navigation_clamping_witness:
  "\<exists>s fl. apply_filter ex_doc ''a'' = Inr s \<and> filtered_lines s = Some fl \<and> nav_ok s
      \<and> length fl = 3
      \<and> (\<exists>s'. cursor_match_prev s = Inr s' \<and> nav_ok s')
      \<and> (\<exists>s'. repeat_cmd (length fl) cursor_line_up s = Inr s' \<and> cursor_line_index s' = 0)
      \<and> (\<exists>s'. repeat_cmd (length fl) cursor_line_down s = Inr s' \<and> cursor_line_index s' = 2)"
proof -
  obtain s where a: "apply_filter ex_doc ''a'' = Inr s" using apply_filter_total by blast
  let ?fl = "snd (get_filtered_lines ''a'' (lines ex_doc))"
  have len: "length ?fl = 3" by code_simp
  then have ne: "?fl \<noteq> []" by auto
  have f: "filtered_lines s = Some ?fl" using apply_filter_filtered_lines(1)[OF a] .
  have "has_filter_results s" using apply_filter_filtered_lines(2)[OF a] ne by simp
  with a have n: "nav_ok s" by (rule apply_filter_nav_ok)
  from navigation_clamping[OF n f] len a f n show ?thesis by auto
qed

text \<open>
  Claim C5. When incrementing the match index would reach the match count of the current
  line, \<^verbatim>\<open>cursor_match_next\<close> is \<^verbatim>\<open>cursor_line_down\<close>: it lands on match 0 of the next
  filtered line, or of the same line if that is the last one.
\<close>

theorem match_next_overflow_line_down:
  assumes "nav_ok s" and "filtered_lines s = Some fl"
    and "int (length (matches (fl ! nat (cursor_line_index s)))) \<le> cursor_match_index s + 1"
  shows "cursor_match_next s = cursor_line_down s
       \<and> (\<exists>s'. cursor_match_next s = Inr s' \<and> filtered_lines s' = Some fl \<and> nav_ok s'
              \<and> cursor_line_index s' = min (cursor_line_index s + 1) (int (length fl) - 1)
              \<and> cursor_match_index s' = 0)"
proof -
  note d = nav_okD[OF assms(1,2)]
  from cursor_match_next_overflow[OF assms(2) d(3,4) assms(3)] nav_step_down[OF assms(1,2)]
  show ?thesis by auto
qed

text \<open>The theorem at a concrete input.\<close>

theorem match_next_overflow_line_down_witness:
  "nav_ok (ex_state_aa 1 [(SearchResult, 0, 0, 1), (SearchResult, 0, 1, 2), (SearchHighlight, 0, 1, 2)])
   \<and> length [ex_line_aa] = 1 \<and> length (matches ex_line_aa) = 2
   \<and> (\<exists>s'. cursor_match_next (ex_state_aa 1 [(SearchResult, 0, 0, 1), (SearchResult, 0, 1, 2), (SearchHighlight, 0, 1, 2)]) = Inr s'
          \<and> cursor_line_index s' = 0 \<and> cursor_match_index s' = 0)"
proof -
  let ?s = "ex_state_aa 1 [(SearchResult, 0, 0, 1), (SearchResult, 0, 1, 2), (SearchHighlight, 0, 1, 2)]"
  have n: "nav_ok ?s" by (simp add: nav_ok_def ex_state_aa_def ex_line_aa_def)
  have f: "filtered_lines ?s = Some [ex_line_aa]" by (simp add: ex_state_aa_def)
  have o: "int (length (matches ([ex_line_aa] ! nat (cursor_line_index ?s))))
             \<le> cursor_match_index ?s + 1"
    by (simp add: ex_state_aa_def ex_line_aa_def)
  from match_next_overflow_line_down[OF n f o] obtain s' where
    "cursor_match_next ?s = Inr s'"
    "cursor_line_index s' = min (cursor_line_index ?s + 1) (int (length [ex_line_aa]) - 1)"
    "cursor_match_index s' = 0" by blast
  moreover have "min (cursor_line_index ?s + 1) (int (length [ex_line_aa]) - 1) = 0"
    by (simp add: ex_state_aa_def)
  moreover have "length (matches ex_line_aa) = 2" by (simp add: ex_line_aa_def)
  ultimately show ?thesis using n by auto
qed

subsection \<open>Construction and navigation without filtered lines\<close>

lemma ex_doc_init:
  "Aerojump_init [''foobar'', ''barfoo'', ''fbo'', ''aXbaab''] [1, 2, 3, 4] (2, 0) (1, 0) 10
   = Inr ex_doc"
  by code_simp

lemma init_loop_ok:
  "\<forall>i\<in>set is. i < length lns \<and> i < length nums \<Longrightarrow>
   init_loop lns nums is acc = Inr (acc @ map (\<lambda>i. AerojumpLine_init (lns ! i) (nums ! i)) is)"
  by (induction "is" arbitrary: acc) (auto simp: py_nth_nat)

lemma init_loop_short:
  "\<forall>i\<in>set is. i < length lns \<Longrightarrow> \<exists>i\<in>set is. \<not> i < length nums \<Longrightarrow>
   init_loop lns nums is acc = Inl IndexError"
proof (induction "is" arbitrary: acc)
  case Nil
  then show ?case by simp
next
  case (Cons i "is")
  show ?case
  proof (cases "i < length nums")
    case True
    with Cons.prems have "\<exists>i\<in>set is. \<not> i < length nums" by auto
    with Cons.IH Cons.prems(1) True show ?thesis by (simp add: py_nth_nat)
  next
    case False
    with Cons.prems(1) show ?thesis by (simp add: py_nth_nat py_nth_def)
  qed
qed

lemma Aerojump_init_short:
  assumes "length lin_nums < length lns"
  shows "Aerojump_init lns lin_nums cp tp n = Inl IndexError"
proof -
  have "\<exists>i\<in>set [0..<length lns]. \<not> i < length lin_nums"
    using assms by (intro bexI[of _ "length lin_nums"]) simp_all
  then have "init_loop lns lin_nums [0..<length lns] [] = Inl IndexError"
    by (intro init_loop_short) simp_all
  then show ?thesis by (simp add: Aerojump_init_def)
qed

lemma Aerojump_init_long:
  assumes "length lns \<le> length lin_nums"
  shows "\<exists>s. Aerojump_init lns lin_nums cp tp n = Inr s
           \<and> map raw (lines s) = lns \<and> map num (lines s) = take (length lns) lin_nums
           \<and> og_cursor_pos s = cp \<and> og_top_line s = tp \<and> num_lines s = n
           \<and> filtered_lines s = None \<and> highlights s = None \<and> \<not> has_filter_results s"
proof -
  let ?ls = "map (\<lambda>i. AerojumpLine_init (lns ! i) (lin_nums ! i)) [0..<length lns]"
  have "init_loop lns lin_nums [0..<length lns] [] = Inr ([] @ ?ls)"
    using assms by (intro init_loop_ok) simp
  then have eq: "init_loop lns lin_nums [0..<length lns] [] = Inr ?ls" by simp
  have r: "map raw ?ls = lns"
    by (intro nth_equalityI) (simp_all add: AerojumpLine_init_def)
  have nm: "map num ?ls = take (length lns) lin_nums"
    using assms by (intro nth_equalityI) (simp_all add: AerojumpLine_init_def)
  from eq r nm show ?thesis by (simp add: Aerojump_init_def)
qed

lemma refresh_highlights_empty:
  "filtered_lines s = Some [] \<Longrightarrow> refresh_highlights s = Inl IndexError"
  by (simp add: refresh_highlights_def attr_def update_highlights_def py_nth_Nil)

lemma refresh_highlights_unset:
  "filtered_lines s = None \<Longrightarrow> refresh_highlights s = Inl AttributeError"
  by (simp add: refresh_highlights_def attr_def)

lemma navigation_empty:
  assumes "filtered_lines s = Some []"
  shows "cursor_line_up s = Inl IndexError" and "cursor_line_down s = Inl IndexError"
    and "cursor_match_next s = Inl IndexError" and "cursor_match_prev s = Inl IndexError"
proof -
  have up: "cursor_line_up s0 = Inl IndexError" if "filtered_lines s0 = Some []"
    for s0 :: Aerojump
    using that by (simp add: cursor_line_up_def Let_def refresh_highlights_empty)
  show "cursor_line_up s = Inl IndexError" using assms by (rule up)
  show "cursor_line_down s = Inl IndexError"
    using assms by (simp add: cursor_line_down_def Let_def attr_def refresh_highlights_empty)
  show "cursor_match_next s = Inl IndexError"
    using assms by (simp add: cursor_match_next_def Let_def attr_def py_nth_Nil)
  show "cursor_match_prev s = Inl IndexError"
    using assms up[of "s\<lparr>cursor_match_index := cursor_match_index s - 1\<rparr>"]
    by (simp add: cursor_match_prev_def Let_def refresh_highlights_empty)
qed

lemma navigation_unset:
  assumes "filtered_lines s = None"
  shows "cursor_line_up s = Inl AttributeError" and "cursor_line_down s = Inl AttributeError"
    and "cursor_match_next s = Inl AttributeError" and "cursor_match_prev s = Inl AttributeError"
proof -
  have up: "cursor_line_up s0 = Inl AttributeError" if "filtered_lines s0 = None"
    for s0 :: Aerojump
    using that by (simp add: cursor_line_up_def Let_def refresh_highlights_unset)
  show "cursor_line_up s = Inl AttributeError" using assms by (rule up)
  show "cursor_line_down s = Inl AttributeError"
    using assms by (simp add: cursor_line_down_def Let_def attr_def)
  show "cursor_match_next s = Inl AttributeError"
    using assms by (simp add: cursor_match_next_def Let_def attr_def)
  show "cursor_match_prev s = Inl AttributeError"
    using assms up[of "s\<lparr>cursor_match_index := cursor_match_index s - 1\<rparr>"]
    by (simp add: cursor_match_prev_def Let_def refresh_highlights_unset)
qed

text \<open>
  Claim C9, as amended. Construction with fewer line numbers than lines raises
  \<^verbatim>\<open>IndexError\<close>; construction with at least as many line numbers as lines succeeds and
  uses the first \<open>length lns\<close> numbers. Each navigation command raises
  \<^verbatim>\<open>IndexError\<close> while the filtered-line sequence is empty, and \<^verbatim>\<open>AttributeError\<close>
  before the first filter pass.
\<close>

theorem construction_and_empty_navigation:
  "(length lin_nums < length lns \<longrightarrow> Aerojump_init lns lin_nums cp tp n = Inl IndexError)
   \<and> (length lns \<le> length lin_nums \<longrightarrow>
        (\<exists>s0. Aerojump_init lns lin_nums cp tp n = Inr s0
           \<and> map raw (lines s0) = lns \<and> map num (lines s0) = take (length lns) lin_nums))
   \<and> (filtered_lines s = Some [] \<longrightarrow>
        cursor_line_up s = Inl IndexError \<and> cursor_line_down s = Inl IndexError
        \<and> cursor_match_next s = Inl IndexError \<and> cursor_match_prev s = Inl IndexError)
   \<and> (filtered_lines s = None \<longrightarrow>
        cursor_line_up s = Inl AttributeError \<and> cursor_line_down s = Inl AttributeError
        \<and> cursor_match_next s = Inl AttributeError \<and> cursor_match_prev s = Inl AttributeError)"
  using Aerojump_init_short[of lin_nums lns cp tp n] Aerojump_init_long[of lns lin_nums cp tp n]
    navigation_empty[of s] navigation_unset[of s]
  by blast

text \<open>The theorem at a concrete input.\<close>

theorem construction_and_empty_navigation_witness:
  "length [1 :: int] < length [''a'', ''b'']
   \<and> Aerojump_init [''a'', ''b''] [1] (1, 0) (1, 0) 10 = Inl IndexError
   \<and> length [''a''] \<le> length [1, 2 :: int]
   \<and> (\<exists>s0. Aerojump_init [''a''] [1, 2] (1, 0) (1, 0) 10 = Inr s0 \<and> map num (lines s0) = [1])
   \<and> filtered_lines ex_doc = None
   \<and> cursor_line_down ex_doc = Inl AttributeError
   \<and> (\<exists>s. apply_filter ex_doc ''z'' = Inr s \<and> filtered_lines s = Some []
          \<and> cursor_line_up s = Inl IndexError \<and> cursor_line_down s = Inl IndexError
          \<and> cursor_match_next s = Inl IndexError \<and> cursor_match_prev s = Inl IndexError)"
proof -
  obtain s where a: "apply_filter ex_doc ''z'' = Inr s" using apply_filter_total by blast
  have "snd (get_filtered_lines ''z'' (lines ex_doc)) = []" by code_simp
  with apply_filter_filtered_lines(1)[OF a] have f: "filtered_lines s = Some []" by simp
  have u: "filtered_lines ex_doc = None" by (simp add: ex_doc_def)
  have l1: "length [1 :: int] < length [''a'', ''b'']" by simp
  have l2: "length [''a''] \<le> length [1, 2 :: int]" by simp
  note t1 = construction_and_empty_navigation[of "[1]" "[''a'', ''b'']" "(1, 0)" "(1, 0)" 10 s]
  note t2 = construction_and_empty_navigation[of "[1, 2]" "[''a'']" "(1, 0)" "(1, 0)" 10 ex_doc]
  from t1 l1 have c1: "Aerojump_init [''a'', ''b''] [1] (1, 0) (1, 0) 10 = Inl IndexError"
    by blast
  from t2 l2 obtain s0 where "Aerojump_init [''a''] [1, 2] (1, 0) (1, 0) 10 = Inr s0"
    "map num (lines s0) = take (length [''a'']) [1, 2]" by blast
  then have c2: "\<exists>s0. Aerojump_init [''a''] [1, 2] (1, 0) (1, 0) 10 = Inr s0
                     \<and> map num (lines s0) = [1]" by auto
  from t2 u have c3: "cursor_line_down ex_doc = Inl AttributeError" by blast
  from t1 f have c4: "cursor_line_up s = Inl IndexError \<and> cursor_line_down s = Inl IndexError
          \<and> cursor_match_next s = Inl IndexError \<and> cursor_match_prev s = Inl IndexError"
    by blast
  from l1 c1 l2 c2 u c3 a f c4 show ?thesis by blast
qed

text \<open>
  The claim as stated fails: with one line and two line numbers the construction
  succeeds.
\<close>

theorem surplus_line_numbers_counterexample:
  "length [''a''] \<noteq> length [1, 2 :: int]
   \<and> Aerojump_init [''a''] [1, 2] (1, 0) (1, 0) 10 =
       Inr \<lparr> log_str = [], og_top_line = (1, 0), og_cursor_pos = (1, 0), num_lines = 10,
             filter_string = [], lines = [AerojumpLine_init ''a'' 1],
             cursor_line_index = 0, cursor_match_index = 0, has_filter_results = False,
             filtered_lines = None, highlights = None \<rparr>"
  by code_simp

subsection \<open>The cursor and the display without results\<close>

lemma raw_filter_line: "raw (filter_line l q) = raw l"
  by (cases "score_loop (filter_loop (l\<lparr>matches := []\<rparr>) q [0..<length (raw_lower l)] []) (length q) [] []")
     (simp add: filter_line_def Let_def score_matches_def)

lemma raw_get_filtered_loop: "map raw (fst (get_filtered_loop q ls filtered fi)) = map raw ls"
proof (induction ls arbitrary: filtered fi)
  case Nil
  then show ?case by simp
next
  case (Cons l ls)
  show ?case
  proof (cases "matches (filter_line l q) \<noteq> []")
    case True
    then show ?thesis
      using Cons[of "filtered @ [(filter_line l q)\<lparr>filt_index := Some fi\<rparr>]" "fi + 1"]
      by (auto simp: Let_def raw_filter_line split: prod.splits)
  next
    case False
    then show ?thesis using Cons[of filtered fi]
      by (auto simp: Let_def raw_filter_line split: prod.splits)
  qed
qed

lemma raw_get_filtered_lines: "map raw (fst (get_filtered_lines q ls)) = map raw ls"
  by (simp add: get_filtered_lines_def raw_get_filtered_loop)

lemma apply_filter_no_results:
  assumes "apply_filter s q = Inr s'" and "filtered_lines s' = Some []"
  shows "s' = filter_pass s q"
proof -
  from apply_filter_filtered_lines(1)[OF assms(1)] assms(2)
  have "snd (get_filtered_lines q (lines s)) = []" by simp
  from apply_filter_empty[OF this] assms(1) show ?thesis by simp
qed

lemma draw_eq:
  "draw s = (case highlights s of
               None \<Rightarrow> Inl AttributeError
             | Some hls \<Rightarrow>
                 (case get_cursor s of
                    Inl e \<Rightarrow> Inl e
                  | Inr c \<Rightarrow> Inr \<lparr> d_lines = map raw (lines s), d_highlights = hls,
                                   d_cursor_position = c \<rparr>))"
  by (simp add: draw_def Let_def attr_def split: option.splits)

lemma draw_no_results:
  assumes "apply_filter s q = Inr s'" and "filtered_lines s' = Some []"
  shows "draw s' = (case highlights s of
                      None \<Rightarrow> Inl AttributeError
                    | Some hls \<Rightarrow> Inr \<lparr> d_lines = map raw (lines s), d_highlights = hls,
                                         d_cursor_position = og_cursor_pos s \<rparr>)"
proof -
  from apply_filter_no_results[OF assms] have s': "s' = filter_pass s q" .
  from apply_filter_filtered_lines(1)[OF assms(1)] assms(2)
  have e: "snd (get_filtered_lines q (lines s)) = []" by simp
  have "get_cursor s' = Inr (og_cursor_pos s)"
    using e by (simp add: s' filter_pass_def get_cursor_def)
  moreover have "highlights s' = highlights s" by (simp add: s' filter_pass_def)
  moreover have "map raw (lines s') = map raw (lines s)"
    by (simp add: s' filter_pass_def raw_get_filtered_lines)
  ultimately show ?thesis by (simp add: draw_eq split: option.splits)
qed

lemma get_cursor_without_results:
  "\<exists>s'. apply_filter s q = Inr s' \<and> og_cursor_pos s' = og_cursor_pos s
      \<and> (filtered_lines s' = Some [] \<longrightarrow> get_cursor s' = Inr (og_cursor_pos s))"
proof -
  obtain s' where a: "apply_filter s q = Inr s'" using apply_filter_total by blast
  have og: "og_cursor_pos s' = og_cursor_pos s" using apply_filter_filtered_lines(3)[OF a] .
  have "get_cursor s' = Inr (og_cursor_pos s)" if f: "filtered_lines s' = Some []"
  proof -
    from apply_filter_filtered_lines(2)[OF a] apply_filter_filtered_lines(1)[OF a] f
    have "\<not> has_filter_results s'" by simp
    with og show ?thesis by (simp add: get_cursor_def)
  qed
  with a og show ?thesis by blast
qed

lemma Aerojump_init_unassigned:
  assumes "Aerojump_init lns lin_nums cp tp n = Inr s0"
  shows "highlights s0 = None" and "filtered_lines s0 = None" and "og_cursor_pos s0 = cp"
  using assms by (auto simp: Aerojump_init_def split: sum.splits)

lemma draw_without_results_on_constructed_engine:
  assumes "Aerojump_init lns lin_nums cp tp n = Inr s0"
    and "apply_filter s0 q = Inr s'" and "filtered_lines s' = Some []"
  shows "draw s' = Inl AttributeError" and "get_cursor s' = Inr cp"
proof -
  from draw_no_results[OF assms(2,3)] Aerojump_init_unassigned(1)[OF assms(1)]
  show "draw s' = Inl AttributeError" by simp
  from apply_filter_filtered_lines(1,2,3)[OF assms(2)] assms(3)
    Aerojump_init_unassigned(3)[OF assms(1)]
  show "get_cursor s' = Inr cp" by (simp add: get_cursor_def)
qed

lemma draw_without_results_after_results:
  "\<exists>s'. apply_filter (ex_state_aa 1 [(SearchResult, 0, 0, 1), (SearchResult, 0, 1, 2), (SearchHighlight, 0, 1, 2)]) ''z'' = Inr s'
      \<and> filtered_lines s' = Some []
      \<and> get_cursor s' = Inr (1, 0)
      \<and> draw s' = Inr \<lparr> d_lines = [''aa''],
                         d_highlights = [(SearchResult, 0, 0, 1), (SearchResult, 0, 1, 2), (SearchHighlight, 0, 1, 2)],
                         d_cursor_position = (1, 0) \<rparr>"
proof -
  let ?s = "ex_state_aa 1 [(SearchResult, 0, 0, 1), (SearchResult, 0, 1, 2), (SearchHighlight, 0, 1, 2)]"
  from get_cursor_without_results[of ?s "''z''"] obtain s' where
    a: "apply_filter ?s ''z'' = Inr s'"
    and c: "filtered_lines s' = Some [] \<longrightarrow> get_cursor s' = Inr (og_cursor_pos ?s)"
    by blast
  have "snd (get_filtered_lines ''z'' (lines ?s)) = []" by code_simp
  with apply_filter_filtered_lines(1)[OF a] have f: "filtered_lines s' = Some []" by simp
  have og: "og_cursor_pos ?s = (1, 0)" by (simp add: ex_state_aa_def)
  from c f og have g: "get_cursor s' = Inr (1, 0)" by simp
  have d: "draw s' = Inr \<lparr> d_lines = [''aa''],
                         d_highlights = [(SearchResult, 0, 0, 1), (SearchResult, 0, 1, 2), (SearchHighlight, 0, 1, 2)],
                         d_cursor_position = (1, 0) \<rparr>"
    using draw_no_results[OF a f] by (simp add: ex_state_aa_def ex_line_aa_def)
  from a f g d show ?thesis by blast
qed

text \<open>
  Claim C10 (the code departs from it). On a freshly constructed engine, after the
  query \<^verbatim>\<open>z\<close>, which matches no line, \<^verbatim>\<open>get_cursor\<close> returns the original cursor
  position, but \<^verbatim>\<open>draw\<close> raises on the unassigned \<^verbatim>\<open>self.highlights\<close> and returns no
  cursor position at all. The lemmas before show both halves in general.
\<close>

theorem draw_without_results_on_fresh_engine:
  "and_then (and_then (Aerojump_init [''abc''] [1] (1, 0) (1, 0) 10) (\<lambda>s. apply_filter s ''z''))
     (\<lambda>s. Inr (filtered_lines s, get_cursor s, draw s))
   = Inr (Some [], Inr (1, 0), Inl AttributeError)"
  by code_simp

text \<open>
  Claim C7 (the code departs from it). On a freshly constructed engine, after
  \<^verbatim>\<open>apply_filter\<close> with the empty query, \<^verbatim>\<open>draw\<close> reads \<^verbatim>\<open>self.highlights\<close>, which
  no method has assigned yet, and raises; \<^verbatim>\<open>get_cursor\<close> alone returns the original
  cursor.
\<close>

theorem draw_after_empty_query_on_fresh_engine:
  "and_then (and_then (Aerojump_init [''abc''] [1] (1, 0) (1, 0) 10) (\<lambda>s. apply_filter s []))
     draw = Inl AttributeError
   \<and> and_then (and_then (Aerojump_init [''abc''] [1] (1, 0) (1, 0) 10) (\<lambda>s. apply_filter s []))
       get_cursor = Inr (1, 0)"
  by code_simp

text \<open>
  Claim C4 (the code departs from it). Over the single line \<^verbatim>\<open>aa\<close> with the query
  \<^verbatim>\<open>a\<close>, the filter pass selects match 0 of line 0. \<^verbatim>\<open>cursor_match_prev\<close> then
  underflows, calls \<^verbatim>\<open>cursor_line_up\<close> (which computes the highlights for match 0) and
  only afterwards sets the match index to the last match, 1: the readable
  \<^verbatim>\<open>SearchHighlight\<close> span is at column 0, the selected match is at column 1.
\<close>

theorem match_prev_underflow_highlights:
  "and_then (and_then (and_then (Aerojump_init [''aa''] [1] (1, 0) (1, 0) 10)
                        (\<lambda>s. apply_filter s ''a'')) cursor_match_prev)
     (\<lambda>s. Inr (cursor_line_index s, cursor_match_index s,
                shown_cursor_spans s, selected_cursor_spans s))
   = Inr (0, 1, Inr [(SearchHighlight, 0, 0, 1)], Inr [(SearchHighlight, 0, 1, 2)])"
  by code_simp

lemma refresh_highlights_consistent:
  assumes "refresh_highlights s = Inr s'"
  shows "shown_cursor_spans s' = selected_cursor_spans s'"
proof -
  from assms obtain fl hls where fl: "filtered_lines s = Some fl"
    and u: "update_highlights fl (cursor_line_index s) (cursor_match_index s) = Inr hls"
    and s': "s' = s\<lparr>highlights := Some hls\<rparr>"
    by (auto simp: refresh_highlights_def attr_def split: option.splits sum.splits)
  from u obtain l m where l: "py_nth fl (cursor_line_index s) = Inr l"
    and m: "py_nth (matches l) (cursor_match_index s) = Inr m"
    and hls: "hls = match_spans fl @ cursor_spans_of l m"
    by (auto simp: update_highlights_def Let_def match_spans_def cursor_spans_of_def
             split: sum.splits)
  have "filter (\<lambda>h. fst h = SearchHighlight) (match_spans fl) = []"
    by (auto simp: match_spans_def filter_empty_conv)
  moreover have "filter (\<lambda>h. fst h = SearchHighlight) (cursor_spans_of l m) = cursor_spans_of l m"
    by (auto simp: cursor_spans_of_def filter_id_conv)
  ultimately show ?thesis
    using fl l m by (simp add: s' hls shown_cursor_spans_def selected_cursor_spans_def
        get_highlights_def attr_def)
qed

lemma sibling_paths_consistent:
  "cursor_line_up s = Inr s' \<Longrightarrow> shown_cursor_spans s' = selected_cursor_spans s'"
  "cursor_line_down s = Inr s' \<Longrightarrow> shown_cursor_spans s' = selected_cursor_spans s'"
  "cursor_match_next s = Inr s' \<Longrightarrow> shown_cursor_spans s' = selected_cursor_spans s'"
  "cursor_match_prev s = Inr s' \<Longrightarrow> 0 < cursor_match_index s \<Longrightarrow>
     shown_cursor_spans s' = selected_cursor_spans s'"
  "apply_filter s q = Inr s' \<Longrightarrow> has_filter_results s' \<Longrightarrow>
     shown_cursor_spans s' = selected_cursor_spans s'"
proof -
  show up: "shown_cursor_spans s' = selected_cursor_spans s'" if "cursor_line_up s = Inr s'"
    using that by (auto simp: cursor_line_up_def Let_def intro: refresh_highlights_consistent)
  show down: "shown_cursor_spans s' = selected_cursor_spans s'"
    if "cursor_line_down s = Inr s'" for s
    using that
    by (auto simp: cursor_line_down_def Let_def split: sum.splits
             intro: refresh_highlights_consistent)
  show "shown_cursor_spans s' = selected_cursor_spans s'" if "cursor_match_next s = Inr s'"
    using that
    by (auto simp: cursor_match_next_def Let_def split: sum.splits if_splits
             intro: refresh_highlights_consistent down)
  show "shown_cursor_spans s' = selected_cursor_spans s'"
    if "cursor_match_prev s = Inr s'" "0 < cursor_match_index s"
    using that
    by (auto simp: cursor_match_prev_def Let_def intro: refresh_highlights_consistent)
  show "shown_cursor_spans s' = selected_cursor_spans s'"
    if a: "apply_filter s q = Inr s'" and h: "has_filter_results s'"
  proof -
    obtain ls fl where g: "get_filtered_lines q (lines s) = (ls, fl)" by (metis surj_pair)
    from apply_filter_filtered_lines(2)[OF a] h g have "fl \<noteq> []" by simp
    with a g show ?thesis
      by (auto simp: apply_filter_def Let_def split: sum.splits
               intro: refresh_highlights_consistent)
  qed
qed

subsection \<open>What a filter pass replaces\<close>

lemma match_from_cong:
  "raw a = raw b \<Longrightarrow> raw_lower a = raw_lower b \<Longrightarrow>
   match_from a ms p k i = match_from b ms p k i"
proof (induction a ms p k i rule: match_from.induct)
  case (1 l ms pattern pat_index i)
  show ?case
    by (subst match_from.simps[of l], subst match_from.simps[of b])
       (use 1 in \<open>simp add: Let_def\<close>)
qed

lemma filter_loop_cong:
  assumes "raw a = raw b" and "raw_lower a = raw_lower b"
  shows "filter_loop a p is acc = filter_loop b p is acc"
  by (induction "is" arbitrary: acc)
     (auto simp: match_from_cong[OF assms] assms split: prod.splits bool.splits)

lemma core_filter_line: "core (filter_line l q) = core l"
  by (cases "score_loop (filter_loop (l\<lparr>matches := []\<rparr>) q [0..<length (raw_lower l)] []) (length q) [] []")
     (simp add: core_def filter_line_def Let_def score_matches_def)

lemma filter_line_cong:
  assumes "core a = core b"
  shows "matches (filter_line a q) = matches (filter_line b q)"
    and "q \<noteq> [] \<Longrightarrow> (filter_line a q)\<lparr>filt_index := x\<rparr> = (filter_line b q)\<lparr>filt_index := x\<rparr>"
proof -
  from assms have r: "raw a = raw b" "raw_lower a = raw_lower b" "num a = num b"
    by (simp_all add: core_def)
  have fl: "filter_loop (a\<lparr>matches := []\<rparr>) q is [] = filter_loop (b\<lparr>matches := []\<rparr>) q is []"
    for "is" using r by (intro filter_loop_cong) simp_all
  show m: "matches (filter_line a q) = matches (filter_line b q)"
    using r fl by (simp add: matches_filter_line)
  show "(filter_line a q)\<lparr>filt_index := x\<rparr> = (filter_line b q)\<lparr>filt_index := x\<rparr>" if "q \<noteq> []"
  proof -
    have "scores (filter_line a q) = scores (filter_line b q)"
      using that m by (simp add: scores_filter_line)
    moreover have "core (filter_line a q) = core (filter_line b q)"
      using assms by (simp add: core_filter_line)
    then have "raw (filter_line a q) = raw (filter_line b q)"
      "raw_lower (filter_line a q) = raw_lower (filter_line b q)"
      "num (filter_line a q) = num (filter_line b q)"
      by (simp_all add: core_def)
    ultimately show ?thesis using m by (intro AerojumpLine.equality) simp_all
  qed
qed

lemma renumber_filter_cong:
  "map core as = map core bs \<Longrightarrow>
   renumber n (filter (\<lambda>l. matches l \<noteq> []) (map (\<lambda>l. filter_line l q) as)) =
   renumber n (filter (\<lambda>l. matches l \<noteq> []) (map (\<lambda>l. filter_line l q) bs))"
proof (induction as arbitrary: bs n)
  case Nil
  then show ?case by simp
next
  case (Cons a as)
  then obtain b bs' where bs: "bs = b # bs'" "core a = core b" "map core as = map core bs'"
    by (cases bs) auto
  note c = filter_line_cong[OF bs(2), of q]
  show ?case
  proof (cases "matches (filter_line a q) \<noteq> []")
    case True
    then have "q \<noteq> []" by (auto simp: matches_filter_line)
    from c(2)[OF this, of "Some n"] c(1) True Cons.IH[OF bs(3), of "n + 1"] bs(1)
    show ?thesis by simp
  next
    case False
    with c(1) Cons.IH[OF bs(3), of n] bs(1) show ?thesis by simp
  qed
qed

lemma get_filtered_lines_cong:
  "map core as = map core bs \<Longrightarrow>
   snd (get_filtered_lines q as) = snd (get_filtered_lines q bs)"
  using renumber_filter_cong[of as bs 0 q] by (simp add: get_filtered_lines_snd)

lemma matches_get_filtered_loop:
  "map matches (fst (get_filtered_loop q ls filtered fi)) = map (\<lambda>l. matches (filter_line l q)) ls"
proof (induction ls arbitrary: filtered fi)
  case Nil
  then show ?case by simp
next
  case (Cons l ls)
  show ?case
  proof (cases "matches (filter_line l q) \<noteq> []")
    case True
    then show ?thesis
      using Cons[of "filtered @ [(filter_line l q)\<lparr>filt_index := Some fi\<rparr>]" "fi + 1"]
      by (auto simp: Let_def split: prod.splits)
  next
    case False
    then show ?thesis using Cons[of filtered fi]
      by (auto simp: Let_def split: prod.splits)
  qed
qed

lemma core_get_filtered_loop:
  "map core (fst (get_filtered_loop q ls filtered fi)) = map core ls"
proof (induction ls arbitrary: filtered fi)
  case Nil
  then show ?case by simp
next
  case (Cons l ls)
  have c: "core ((filter_line l q)\<lparr>filt_index := Some fi\<rparr>) = core l"
    using core_filter_line[of l q] by (simp add: core_def)
  show ?case
  proof (cases "matches (filter_line l q) \<noteq> []")
    case True
    then show ?thesis
      using Cons[of "filtered @ [(filter_line l q)\<lparr>filt_index := Some fi\<rparr>]" "fi + 1"] c
      by (auto simp: Let_def split: prod.splits)
  next
    case False
    then show ?thesis using Cons[of filtered fi] core_filter_line[of l q]
      by (auto simp: Let_def split: prod.splits)
  qed
qed

lemma matches_cong:
  assumes "map core as = map core bs"
  shows "map (\<lambda>l. matches (filter_line l q)) as = map (\<lambda>l. matches (filter_line l q)) bs"
  using assms
proof (induction as arbitrary: bs)
  case Nil
  then show ?case by simp
next
  case (Cons a as)
  then obtain b bs' where bs: "bs = b # bs'" "core a = core b" "map core as = map core bs'"
    by (cases bs) auto
  from filter_line_cong(1)[OF bs(2), of q] Cons.IH[OF bs(3)] bs(1) show ?case by simp
qed

lemma best_cursor_in_cong:
  assumes "og_cursor_pos a = og_cursor_pos b"
  shows "best_cursor_in a ls = best_cursor_in b ls"
  unfolding best_cursor_in_def assms by (rule refl)

lemma set_cursor_to_best_match_cong:
  assumes "og_cursor_pos a = og_cursor_pos b" and "og_top_line a = og_top_line b"
    and "num_lines a = num_lines b" and "filtered_lines a = filtered_lines b"
  shows "set_cursor_to_best_match a = set_cursor_to_best_match b"
proof -
  have "best_cursor_in a = best_cursor_in b"
    by (intro ext best_cursor_in_cong assms(1))
  then show ?thesis unfolding set_cursor_to_best_match_def assms(2,3,4) by (rule arg_cong)
qed

text \<open>
  Claim C8, as amended. \<^verbatim>\<open>apply_filter\<close> always returns, and what it stores as filter
  string, filtered lines, result flag and per-line matches depends only on the query and
  on what was fixed at construction: two states of the same session agree on them after
  the same query. When the filtered set is non-empty, the same holds of the cursor
  indices and of the highlights.
\<close>

theorem apply_filter_recomputes:
  assumes "same_session a b"
  shows "\<exists>a' b'. apply_filter a q = Inr a' \<and> apply_filter b q = Inr b'
           \<and> filter_string a' = q \<and> filter_string b' = q
           \<and> filtered_lines a' = filtered_lines b'
           \<and> has_filter_results a' = has_filter_results b'
           \<and> map matches (lines a') = map matches (lines b')
           \<and> (has_filter_results a' \<longrightarrow>
                 cursor_line_index a' = cursor_line_index b'
                 \<and> cursor_match_index a' = cursor_match_index b'
                 \<and> highlights a' = highlights b')
           \<and> same_session a a'"
proof -
  from assms have s: "og_top_line a = og_top_line b" "og_cursor_pos a = og_cursor_pos b"
    "num_lines a = num_lines b" "map core (lines a) = map core (lines b)"
    by (simp_all add: same_session_def)
  obtain a' where a': "apply_filter a q = Inr a'" using apply_filter_total by blast
  obtain b' where b': "apply_filter b q = Inr b'" using apply_filter_total by blast
  note fa = apply_filter_filtered_lines[OF a']
  note fb = apply_filter_filtered_lines[OF b']
  let ?fl = "snd (get_filtered_lines q (lines a))"
  have fl: "snd (get_filtered_lines q (lines b)) = ?fl"
    using get_filtered_lines_cong[OF s(4), of q] by simp
  have m: "map matches (lines a') = map matches (lines b')"
    using fa(7) fb(7) matches_cong[OF s(4), of q]
    by (simp add: get_filtered_lines_def matches_get_filtered_loop)
  have ss: "same_session a a'"
    using fa(3,4,5,7) by (simp add: same_session_def get_filtered_lines_def core_get_filtered_loop)
  have cur: "cursor_line_index a' = cursor_line_index b'
           \<and> cursor_match_index a' = cursor_match_index b' \<and> highlights a' = highlights b'"
    if "has_filter_results a'"
  proof -
    from that fa(2) have ne: "?fl \<noteq> []" by simp
    from apply_filter_nonempty[OF refl ne] obtain k j i where
      ra: "set_cursor_to_best_match (filter_pass a q) = Inr (i, j)"
          "apply_filter a q =
            Inr ((filter_pass a q)\<lparr>cursor_line_index := int i, cursor_match_index := int j,
                 highlights := Some (match_spans ?fl
                                     @ cursor_spans_of (?fl ! i) (matches (?fl ! i) ! j))\<rparr>)"
      by blast
    from apply_filter_nonempty[OF fl ne] obtain k' j' i' where
      rb: "set_cursor_to_best_match (filter_pass b q) = Inr (i', j')"
          "apply_filter b q =
            Inr ((filter_pass b q)\<lparr>cursor_line_index := int i', cursor_match_index := int j',
                 highlights := Some (match_spans ?fl
                                     @ cursor_spans_of (?fl ! i') (matches (?fl ! i') ! j'))\<rparr>)"
      by blast
    from ra(2) a' have va: "cursor_line_index a' = int i" "cursor_match_index a' = int j"
      "highlights a' = Some (match_spans ?fl @ cursor_spans_of (?fl ! i) (matches (?fl ! i) ! j))"
      by auto
    from rb(2) b' have vb: "cursor_line_index b' = int i'" "cursor_match_index b' = int j'"
      "highlights b' = Some (match_spans ?fl @ cursor_spans_of (?fl ! i') (matches (?fl ! i') ! j'))"
      by auto
    have "set_cursor_to_best_match (filter_pass a q) = set_cursor_to_best_match (filter_pass b q)"
      using s fl by (intro set_cursor_to_best_match_cong) (simp_all add: filter_pass_def)
    with ra(1) rb(1) have "i = i'" "j = j'" by simp_all
    with va vb show ?thesis by simp
  qed
  have f: "filtered_lines a' = filtered_lines b'" using fa(1) fb(1) fl by simp
  have h: "has_filter_results a' = has_filter_results b'" using fa(2) fb(2) fl by simp
  have c: "has_filter_results a' \<longrightarrow>
                 cursor_line_index a' = cursor_line_index b'
                 \<and> cursor_match_index a' = cursor_match_index b'
                 \<and> highlights a' = highlights b'" using cur by blast
  from fa(6) fb(6) f h m c ss
  have "apply_filter a q = Inr a' \<and> apply_filter b q = Inr b'
           \<and> filter_string a' = q \<and> filter_string b' = q
           \<and> filtered_lines a' = filtered_lines b'
           \<and> has_filter_results a' = has_filter_results b'
           \<and> map matches (lines a') = map matches (lines b')
           \<and> (has_filter_results a' \<longrightarrow>
                 cursor_line_index a' = cursor_line_index b'
                 \<and> cursor_match_index a' = cursor_match_index b'
                 \<and> highlights a' = highlights b')
           \<and> same_session a a'" using a' b' by (intro conjI) assumption+
  then show ?thesis by (intro exI[of _ a'] exI[of _ b'])
qed

text \<open>The theorem at a concrete input.\<close>

theorem apply_filter_recomputes_witness:
  "same_session
     (ex_state_aa 1 [(SearchResult, 0, 0, 1), (SearchResult, 0, 1, 2), (SearchHighlight, 0, 1, 2)])
     (ex_state_aa 0 [(SearchResult, 0, 0, 1), (SearchResult, 0, 1, 2), (SearchHighlight, 0, 0, 1)])
   \<and> (\<exists>a' b'.
        apply_filter (ex_state_aa 1 [(SearchResult, 0, 0, 1), (SearchResult, 0, 1, 2), (SearchHighlight, 0, 1, 2)]) ''a'' = Inr a'
        \<and> apply_filter (ex_state_aa 0 [(SearchResult, 0, 0, 1), (SearchResult, 0, 1, 2), (SearchHighlight, 0, 0, 1)]) ''a'' = Inr b'
        \<and> filtered_lines a' = filtered_lines b'
        \<and> has_filter_results a' = has_filter_results b'
        \<and> has_filter_results a'
        \<and> cursor_match_index a' = cursor_match_index b' \<and> highlights a' = highlights b')"
proof -
  let ?a = "ex_state_aa 1 [(SearchResult, 0, 0, 1), (SearchResult, 0, 1, 2), (SearchHighlight, 0, 1, 2)]"
  let ?b = "ex_state_aa 0 [(SearchResult, 0, 0, 1), (SearchResult, 0, 1, 2), (SearchHighlight, 0, 0, 1)]"
  have h: "same_session ?a ?b" by (simp add: same_session_def ex_state_aa_def)
  from apply_filter_recomputes[OF h, of "''a''"] obtain a' b' where
    r: "apply_filter ?a ''a'' = Inr a'" "apply_filter ?b ''a'' = Inr b'"
       "filtered_lines a' = filtered_lines b'" "has_filter_results a' = has_filter_results b'"
       "has_filter_results a' \<longrightarrow>
          cursor_line_index a' = cursor_line_index b'
          \<and> cursor_match_index a' = cursor_match_index b' \<and> highlights a' = highlights b'"
    by blast
  have "snd (get_filtered_lines ''a'' (lines ?a)) \<noteq> []" by code_simp
  with apply_filter_filtered_lines(2)[OF r(1)] have "has_filter_results a'" by simp
  with h r show ?thesis by blast
qed

lemma refresh_highlights_same_session:
  "refresh_highlights s = Inr s' \<Longrightarrow> same_session s0 s \<Longrightarrow> same_session s0 s'"
  by (auto simp: refresh_highlights_def same_session_def split: sum.splits)

lemma navigation_same_session:
  "cursor_line_up s = Inr s' \<Longrightarrow> same_session s s'"
  "cursor_line_down s = Inr s' \<Longrightarrow> same_session s s'"
  "cursor_match_next s = Inr s' \<Longrightarrow> same_session s s'"
  "cursor_match_prev s = Inr s' \<Longrightarrow> same_session s s'"
proof -
  have up: "same_session s0 s1" if u: "cursor_line_up s0 = Inr s1" for s0 s1
  proof -
    let ?x = "(if cursor_line_index s0 - 1 < 0 then s0\<lparr>cursor_line_index := 0\<rparr>
               else s0\<lparr>cursor_line_index := cursor_line_index s0 - 1\<rparr>)
              \<lparr>cursor_match_index := 0\<rparr>"
    have e: "cursor_line_up s0 = refresh_highlights ?x"
      by (simp add: cursor_line_up_def Let_def)
    have b: "same_session s0 ?x" by (simp add: same_session_def)
    from u e have "refresh_highlights ?x = Inr s1" by simp
    from refresh_highlights_same_session[OF this b] show ?thesis .
  qed
  have down: "same_session s0 s1" if d: "cursor_line_down s0 = Inr s1" for s0 s1
  proof -
    from d obtain fl where fl: "filtered_lines s0 = Some fl"
      by (cases "filtered_lines s0") (auto simp: cursor_line_down_def Let_def attr_def)
    let ?x = "(if cursor_line_index s0 + 1 \<ge> int (length fl)
               then s0\<lparr>cursor_line_index := int (length fl) - 1\<rparr>
               else s0\<lparr>cursor_line_index := cursor_line_index s0 + 1\<rparr>)
              \<lparr>cursor_match_index := 0\<rparr>"
    have e: "cursor_line_down s0 = refresh_highlights ?x"
      using fl by (simp add: cursor_line_down_def Let_def attr_def)
    have b: "same_session s0 ?x" by (simp add: same_session_def)
    from d e have "refresh_highlights ?x = Inr s1" by simp
    from refresh_highlights_same_session[OF this b] show ?thesis .
  qed
  show "cursor_line_up s = Inr s' \<Longrightarrow> same_session s s'" by (rule up)
  show "cursor_line_down s = Inr s' \<Longrightarrow> same_session s s'" by (rule down)
  show "same_session s s'" if n: "cursor_match_next s = Inr s'"
  proof -
    let ?s1 = "s\<lparr>cursor_match_index := cursor_match_index s + 1\<rparr>"
    have b: "same_session s ?s1" by (simp add: same_session_def)
    from n have "cursor_line_down ?s1 = Inr s' \<or> refresh_highlights ?s1 = Inr s'"
      by (auto simp: cursor_match_next_def Let_def split: sum.splits if_splits)
    then show ?thesis
    proof
      assume "cursor_line_down ?s1 = Inr s'"
      from down[OF this] b show ?thesis by (simp add: same_session_def)
    next
      assume "refresh_highlights ?s1 = Inr s'"
      from refresh_highlights_same_session[OF this b] show ?thesis .
    qed
  qed
  show "same_session s s'" if p: "cursor_match_prev s = Inr s'"
  proof -
    let ?s1 = "s\<lparr>cursor_match_index := cursor_match_index s - 1\<rparr>"
    have b: "same_session s ?s1" by (simp add: same_session_def)
    from p have "(\<exists>s2 x. cursor_line_up ?s1 = Inr s2 \<and> s' = s2\<lparr>cursor_match_index := x\<rparr>)
                 \<or> refresh_highlights ?s1 = Inr s'"
      by (auto simp: cursor_match_prev_def Let_def split: sum.splits if_splits)
    then show ?thesis
    proof
      assume "\<exists>s2 x. cursor_line_up ?s1 = Inr s2 \<and> s' = s2\<lparr>cursor_match_index := x\<rparr>"
      then obtain s2 x where u: "cursor_line_up ?s1 = Inr s2"
        and e: "s' = s2\<lparr>cursor_match_index := x\<rparr>" by blast
      from up[OF u] b e show ?thesis by (simp add: same_session_def)
    next
      assume "refresh_highlights ?s1 = Inr s'"
      from refresh_highlights_same_session[OF this b] show ?thesis .
    qed
  qed
qed

text \<open>
  The claim as stated fails: after the query \<^verbatim>\<open>a\<close> and then the query \<^verbatim>\<open>z\<close>, which
  matches no line, the highlights and the line index of the query \<^verbatim>\<open>a\<close> are still
  readable, whereas the query \<^verbatim>\<open>z\<close> on the fresh engine leaves no highlights at all.
\<close>

theorem stale_state_counterexample:
  "and_then (and_then (apply_filter ex_doc ''a'') (\<lambda>s. apply_filter s ''z''))
     (\<lambda>s. Inr (filtered_lines s, cursor_line_index s, get_highlights s))
   = Inr (Some [], 1,
          Inr [(SearchResult, 0, 4, 5), (SearchResult, 1, 1, 2), (SearchResult, 3, 0, 1),
               (SearchResult, 3, 3, 4), (SearchResult, 3, 4, 5), (SearchHighlight, 1, 1, 2)])
   \<and> and_then (apply_filter ex_doc ''z'')
       (\<lambda>s. Inr (filtered_lines s, cursor_line_index s, get_highlights s))
     = Inr (Some [], 0, Inl AttributeError)"
  by code_simp

end
